theory Spec2Isabelle
  imports Complex_Main "HOL-Library.Word"
begin

unbundle bit_operations_syntax

section \<open>Data model of finance.c\<close>

text \<open>
  The C structs become records. A C \<open>int\<close> is modelled as \<open>int\<close> (no claim examined here
  depends on wrap-around), a \<open>double\<close> as the \<open>real\<close> number it denotes (the amounts of
  the stores are finite; sums and differences of doubles are rounded as binary floating
  point rounds them, see \<open>round_double\<close>; the conversions between decimal text and
  doubles are modelled on the decimal value), and a NUL-terminated \<open>char\<close> array as the
  \<open>string\<close> before the NUL. The dynamic arrays \<open>data/size\<close> become lists; \<open>cap\<close> and
  \<open>realloc\<close> only manage storage and are left out.
  Fields whose C name is taken in Isabelle, or is shared by two structs, carry a prefix:
  \<open>txn_id\<close>, \<open>txn_type\<close>, \<open>txn_note\<close>, \<open>cat_id\<close>, \<open>cat_name\<close> and \<open>b_category_id\<close>,
  \<open>b_year\<close>, \<open>b_month\<close>, \<open>b_amount\<close>.
\<close>

datatype TxnType = TYPE_EXPENSE | TYPE_INCOME

record Transaction =
  txn_id :: int
  date :: string
  amount :: real
  category_id :: int
  txn_type :: TxnType
  txn_note :: string

record Category =
  cat_id :: int
  cat_name :: string

record BudgetEntry =
  b_category_id :: int
  b_year :: int
  b_month :: int
  b_amount :: real

type_synonym byte = "8 word"

text \<open>The global stores \<open>txns\<close>, \<open>cats\<close>, \<open>budgets\<close> and the two obfuscation globals.\<close>

record stores =
  txns :: "Transaction list"
  txns_next_id :: int
  cats :: "Category list"
  cats_next_id :: int
  budgets :: "BudgetEntry list"
  obfuscate_enabled :: bool
  obf_key :: byte

definition initial_stores :: stores where
  "initial_stores = \<lparr>txns = [], txns_next_id = 1, cats = [], cats_next_id = 1,
     budgets = [], obfuscate_enabled = False, obf_key = 0\<rparr>"

section \<open>C library functions used by the program\<close>

definition isdigit :: "char \<Rightarrow> bool" where
  "isdigit c = (48 \<le> (of_char c :: nat) \<and> (of_char c :: nat) \<le> 57)"

definition isspace :: "char \<Rightarrow> bool" where
  "isspace c = ((of_char c :: nat) = 32 \<or> (9 \<le> (of_char c :: nat) \<and> (of_char c :: nat) \<le> 13))"

definition digit_val :: "char \<Rightarrow> nat" where
  "digit_val c = (of_char c :: nat) - 48"

definition digit_char :: "nat \<Rightarrow> char" where
  "digit_char n = char_of (48 + n)"

definition dec_val :: "string \<Rightarrow> nat" where
  "dec_val ds = foldl (\<lambda>acc c. acc * 10 + digit_val c) 0 ds"

text \<open>\<open>strcmp\<close>: bytes compared as unsigned char; only the sign of the result is defined
  by C, so the model returns \<open>-1\<close>, \<open>0\<close> or \<open>1\<close>.\<close>

fun strcmp :: "string \<Rightarrow> string \<Rightarrow> int" where
  "strcmp [] [] = 0"
| "strcmp [] (b # bs) = - 1"
| "strcmp (a # as) [] = 1"
| "strcmp (a # as) (b # bs) =
     (if a = b then strcmp as bs
      else if (of_char a :: nat) < of_char b then - 1 else 1)"

text \<open>One \<open>%Nd\<close> conversion of \<open>sscanf\<close>: leading white space is skipped, an optional sign
  counts towards the field width \<open>w\<close>, then at most the remaining width of decimal digits is
  read; with no digit the conversion fails.\<close>

definition scan_d :: "nat \<Rightarrow> string \<Rightarrow> (int \<times> string) option" where
  "scan_d w s =
     (let s1 = dropWhile isspace s;
          signed = (case s1 of [] \<Rightarrow> False | c # cs \<Rightarrow> (c = CHR ''-'' \<or> c = CHR ''+'') \<and> 0 < w);
          neg = (signed \<and> hd s1 = CHR ''-'');
          s2 = (if signed then tl s1 else s1);
          w2 = (if signed then w - 1 else w);
          ds = takeWhile isdigit (take w2 s2)
      in if ds = [] then None
         else Some (if neg then - int (dec_val ds) else int (dec_val ds), drop (length ds) s2))"

text \<open>A literal character of the \<open>sscanf\<close> format has to match the next input character.\<close>

definition scan_lit :: "char \<Rightarrow> string \<Rightarrow> string option" where
  "scan_lit c s = (case s of [] \<Rightarrow> None | x # xs \<Rightarrow> if x = c then Some xs else None)"

text \<open>\<open>sscanf(s, "%4d-%2d-%2d", &y, &m, &d)\<close>; the result is \<open>Some (y, m, d)\<close> exactly when
  the call returns 3.\<close>

definition sscanf_date :: "string \<Rightarrow> (int \<times> int \<times> int) option" where
  "sscanf_date s =
     (case scan_d 4 s of None \<Rightarrow> None
      | Some (y, r1) \<Rightarrow>
     (case scan_lit CHR ''-'' r1 of None \<Rightarrow> None
      | Some r2 \<Rightarrow>
     (case scan_d 2 r2 of None \<Rightarrow> None
      | Some (m, r3) \<Rightarrow>
     (case scan_lit CHR ''-'' r3 of None \<Rightarrow> None
      | Some r4 \<Rightarrow>
     (case scan_d 2 r4 of None \<Rightarrow> None
      | Some (d, r5) \<Rightarrow> Some (y, m, d))))))"

text \<open>\<open>atoi\<close>: white space, an optional sign, then decimal digits; \<open>0\<close> without a digit.\<close>

definition atoi :: "string \<Rightarrow> int" where
  "atoi s =
     (let s1 = dropWhile isspace s;
          signed = (case s1 of [] \<Rightarrow> False | c # cs \<Rightarrow> c = CHR ''-'' \<or> c = CHR ''+'');
          neg = (signed \<and> hd s1 = CHR ''-'');
          s2 = (if signed then tl s1 else s1);
          v = int (dec_val (takeWhile isdigit s2))
      in if neg then - v else v)"

text \<open>\<open>atof\<close> on decimal input: white space, an optional sign, digits with an optional
  fraction, and an optional exponent; \<open>0\<close> when no digit is found. The hexadecimal form and
  the words \<open>inf\<close> and \<open>nan\<close> have no counterpart over \<open>real\<close> and read as \<open>0\<close> here.\<close>

definition atof :: "string \<Rightarrow> real" where
  "atof s =
     (let s1 = dropWhile isspace s;
          signed = (case s1 of [] \<Rightarrow> False | c # cs \<Rightarrow> c = CHR ''-'' \<or> c = CHR ''+'');
          neg = (signed \<and> hd s1 = CHR ''-'');
          s2 = (if signed then tl s1 else s1);
          ip = takeWhile isdigit s2;
          r1 = dropWhile isdigit s2;
          dot = (case r1 of [] \<Rightarrow> False | c # cs \<Rightarrow> c = CHR ''.'');
          fp = (if dot then takeWhile isdigit (tl r1) else []);
          r2 = (if dot then dropWhile isdigit (tl r1) else r1);
          mant = real (dec_val ip) + real (dec_val fp) / 10 ^ length fp;
          expo = (case r2 of [] \<Rightarrow> False | c # cs \<Rightarrow> c = CHR ''e'' \<or> c = CHR ''E'');
          r3 = (if expo then tl r2 else []);
          esigned = (case r3 of [] \<Rightarrow> False | c # cs \<Rightarrow> c = CHR ''-'' \<or> c = CHR ''+'');
          eneg = (esigned \<and> hd r3 = CHR ''-'');
          ed = takeWhile isdigit (if esigned then tl r3 else r3);
          scaled = (if ed = [] then mant
                    else if eneg then mant / 10 ^ dec_val ed else mant * 10 ^ dec_val ed)
      in if ip = [] \<and> fp = [] then 0 else if neg then - scaled else scaled)"

definition tolower :: "char \<Rightarrow> char" where
  "tolower c = (if 65 \<le> (of_char c :: nat) \<and> (of_char c :: nat) \<le> 90
                then char_of ((of_char c :: nat) + 32) else c)"

definition strcasecmp :: "string \<Rightarrow> string \<Rightarrow> int" where
  "strcasecmp a b = strcmp (map tolower a) (map tolower b)"

text \<open>\<open>strtok\<close>: leading delimiters are skipped, the token runs up to the next delimiter,
  and the scan resumes behind that delimiter. \<open>None\<close> is the NULL result.\<close>

definition strtok :: "string \<Rightarrow> string \<Rightarrow> (string \<times> string) option" where
  "strtok delims s =
     (let s1 = dropWhile (\<lambda>c. c \<in> set delims) s
      in if s1 = [] then None
         else Some (takeWhile (\<lambda>c. c \<notin> set delims) s1,
                    drop 1 (dropWhile (\<lambda>c. c \<notin> set delims) s1)))"

text \<open>Decimal digits of a natural number, and the conversions \<open>%d\<close>, \<open>%0Nd\<close> and
  \<open>%.2f\<close> of \<open>printf\<close> (the last rounds to the nearest hundredth, ties to even).\<close>

function digits10 :: "nat \<Rightarrow> string" where
  "digits10 n = (if n < 10 then [digit_char n]
                 else digits10 (n div 10) @ [digit_char (n mod 10)])"
  by pat_completeness auto
termination
  by (relation "measure (\<lambda>n. n)") auto

declare digits10.simps [simp del]

definition fmt_d :: "int \<Rightarrow> string" where
  "fmt_d i = (if i < 0 then CHR ''-'' # digits10 (nat (- i)) else digits10 (nat i))"

definition fmt_0d :: "nat \<Rightarrow> int \<Rightarrow> string" where
  "fmt_0d w i =
     (let ds = digits10 (nat \<bar>i\<bar>)
      in if i < 0 then CHR ''-'' # replicate (w - 1 - length ds) CHR ''0'' @ ds
         else replicate (w - length ds) CHR ''0'' @ ds)"

definition round_half_even :: "real \<Rightarrow> int" where
  "round_half_even x =
     (let f = \<lfloor>x\<rfloor>; r = x - of_int f
      in if r < 1 / 2 then f else if 1 / 2 < r then f + 1
         else if even f then f else f + 1)"

definition fmt_2f :: "real \<Rightarrow> string" where
  "fmt_2f a =
     (let c = nat (round_half_even (\<bar>a\<bar> * 100))
      in (if a < 0 then [CHR ''-''] else []) @ digits10 (c div 100) @ [CHR ''.''] @
         [digit_char (c mod 100 div 10), digit_char (c mod 10)])"

section \<open>Arithmetic on doubles\<close>

text \<open>
  A finite \<open>double\<close> (IEEE 754 binary64) is a number \<open>m * 2^e\<close> with integers
  \<open>\<bar>m\<bar> < 2^53\<close> and \<open>-1074 \<le> e \<le> 971\<close>; it is modelled by the real number it denotes.
  The sum and the difference of two doubles are the exact result rounded to the nearest
  double, ties to the even significand, and an infinity when the rounded result lies
  beyond the largest double.

  \<open>bit_length n\<close> is the number of binary digits of \<open>n\<close>. In \<open>round_double x\<close> the
  magnitude of \<open>x\<close> is counted in multiples of the smallest positive double \<open>2^-1074\<close>;
  of that count the leading 53 binary digits are kept, so the spacing of the doubles
  around \<open>x\<close> is \<open>2^k / 2^1074\<close>. The result \<open>None\<close> stands for a value that is not
  finite.
\<close>

fun bit_length :: "nat \<Rightarrow> nat" where
  "bit_length n = (if n = 0 then 0 else Suc (bit_length (n div 2)))"

declare bit_length.simps [simp del]

definition round_double :: "real \<Rightarrow> real option" where
  "round_double x =
     (let k = bit_length (nat \<lfloor>\<bar>x\<bar> * 2 ^ 1074\<rfloor>) - 53;
          r = real_of_int (round_half_even (x * 2 ^ 1074 / 2 ^ k)) * 2 ^ k / 2 ^ 1074
      in if \<bar>r\<bar> < 2 ^ 1024 then Some r else None)"

text \<open>\<open>a + b\<close> and \<open>a - b\<close> for a double \<open>a\<close> that may be infinite or NaN (\<open>None\<close>) and a
  finite double \<open>b\<close>: a value that is not finite stays so.\<close>

definition double_add :: "real option \<Rightarrow> real \<Rightarrow> real option" where
  "double_add a b = (case a of None \<Rightarrow> None | Some x \<Rightarrow> round_double (x + b))"

definition double_sub :: "real option \<Rightarrow> real \<Rightarrow> real option" where
  "double_sub a b = (case a of None \<Rightarrow> None | Some x \<Rightarrow> round_double (x - b))"

section \<open>Date helpers\<close>

text \<open>\<open>parse_date\<close> returns \<open>Some (y, m, d)\<close> where the C function returns 1 (the triple is
  what it would store through \<open>out\<close>) and \<open>None\<close> where it returns 0.\<close>

definition parse_date :: "string \<Rightarrow> (int \<times> int \<times> int) option" where
  "parse_date s =
     (if length s \<noteq> 10 then None
      else case sscanf_date s of None \<Rightarrow> None
           | Some (y, m, d) \<Rightarrow>
               if m < 1 \<or> m > 12 \<or> d < 1 \<or> d > 31 then None else Some (y, m, d))"

definition compare_dates :: "string \<Rightarrow> string \<Rightarrow> int" where
  "compare_dates a b = strcmp a b"

section \<open>Input helpers\<close>

text \<open>Standard input is the string of characters not yet read (a text without NUL
  characters). \<open>fgets_take n\<close> reads at most \<open>n\<close> characters and stops behind a newline;
  \<open>fgets\<close> with buffer size \<open>sz\<close> reads at most \<open>sz - 1\<close> and is \<open>None\<close> (NULL) at end
  of input. What a full buffer leaves unread, the newline included, is read by the next
  call.\<close>

fun fgets_take :: "nat \<Rightarrow> string \<Rightarrow> string \<times> string" where
  "fgets_take n [] = ([], [])"
| "fgets_take n (c # cs) =
     (if n = 0 then ([], c # cs)
      else if c = CHR 0x0A then ([c], cs)
      else (case fgets_take (n - 1) cs of (l, r) \<Rightarrow> (c # l, r)))"

definition fgets :: "nat \<Rightarrow> string \<Rightarrow> (string \<times> string) option" where
  "fgets sz s = (if s = [] then None else Some (fgets_take (sz - 1) s))"

definition is_eol :: "char \<Rightarrow> bool" where
  "is_eol c = (c = CHR 0x0A \<or> c = CHR 0x0D)"

definition read_line :: "nat \<Rightarrow> string \<Rightarrow> string \<times> string" where
  "read_line sz inp =
     (case fgets sz inp of None \<Rightarrow> ([], inp)
      | Some (l, r) \<Rightarrow> (rev (dropWhile is_eol (rev l)), r))"

definition read_int :: "string \<Rightarrow> int \<times> string" where
  "read_int inp =
     (case read_line 64 inp of (buf, r) \<Rightarrow> (if buf = [] then 0 else atoi buf, r))"

definition read_double :: "string \<Rightarrow> real \<times> string" where
  "read_double inp =
     (case read_line 64 inp of (buf, r) \<Rightarrow> (if buf = [] then 0 else atof buf, r))"

section \<open>Lookups\<close>

fun index_where :: "('a \<Rightarrow> bool) \<Rightarrow> 'a list \<Rightarrow> nat option" where
  "index_where P [] = None"
| "index_where P (x # xs) = (if P x then Some 0 else map_option Suc (index_where P xs))"

definition find_category_by_id :: "stores \<Rightarrow> int \<Rightarrow> bool" where
  "find_category_by_id st i = list_ex (\<lambda>c. cat_id c = i) (cats st)"

text \<open>The index functions return \<open>None\<close> where the C functions return \<open>-1\<close>.\<close>

definition find_category_index_by_id :: "stores \<Rightarrow> int \<Rightarrow> nat option" where
  "find_category_index_by_id st i = index_where (\<lambda>c. cat_id c = i) (cats st)"

definition find_txn_index_by_id :: "stores \<Rightarrow> int \<Rightarrow> nat option" where
  "find_txn_index_by_id st i = index_where (\<lambda>t. txn_id t = i) (txns st)"

section \<open>Operations on the stores\<close>

text \<open>
  Every interactive operation takes the stores and the pending standard input, and returns
  the last status line it prints (as a \<open>message\<close>), the stores and the input left over.
  Listings and prompts have no effect on the stores and are not modelled.
\<close>

datatype message =
    Empty_name_aborted | Added_category | Not_found | Updated | Category_in_use | Deleted
  | Invalid_date_format | Amount_must_be_positive | No_categories_abort | Invalid_category
  | Transaction_added | Invalid_month | Invalid_amount | Updated_budget | Budget_set

subsection \<open>Categories\<close>

definition add_category :: "stores \<Rightarrow> string \<Rightarrow> message \<times> stores \<times> string" where
  "add_category st inp =
     (case read_line 64 inp of (nm, r) \<Rightarrow>
        if nm = [] then (Empty_name_aborted, st, r)
        else (Added_category,
              st\<lparr>cats := cats st @ [\<lparr>cat_id = cats_next_id st, cat_name = take 63 nm\<rparr>],
                 cats_next_id := cats_next_id st + 1\<rparr>, r))"

definition edit_category :: "stores \<Rightarrow> string \<Rightarrow> message \<times> stores \<times> string" where
  "edit_category st inp =
     (case read_int inp of (i, r0) \<Rightarrow>
      case find_category_index_by_id st i of
        None \<Rightarrow> (Not_found, st, r0)
      | Some idx \<Rightarrow>
         (case read_line 64 r0 of (buf, r1) \<Rightarrow>
            (Updated,
             if buf \<noteq> [] then st\<lparr>cats := (cats st)[idx := (cats st ! idx)\<lparr>cat_name := take 63 buf\<rparr>]\<rparr>
             else st, r1)))"

text \<open>Removal overwrites slot \<open>idx\<close> with the last element and shrinks the array by one.\<close>

definition remove_category :: "stores \<Rightarrow> string \<Rightarrow> message \<times> stores \<times> string" where
  "remove_category st inp =
     (case read_int inp of (i, r) \<Rightarrow>
      case find_category_index_by_id st i of
        None \<Rightarrow> (Not_found, st, r)
      | Some idx \<Rightarrow>
          if list_ex (\<lambda>t. category_id t = i) (txns st) then (Category_in_use, st, r)
          else (Deleted, st\<lparr>cats := butlast ((cats st)[idx := last (cats st)])\<rparr>, r))"

subsection \<open>Transactions\<close>

text \<open>The part of \<open>add_transaction\<close> from the category prompt on.\<close>

definition add_transaction_finish ::
  "Transaction \<Rightarrow> stores \<Rightarrow> string \<Rightarrow> message \<times> stores \<times> string" where
  "add_transaction_finish t st inp =
     (case read_int inp of (cid, r1) \<Rightarrow>
        if \<not> find_category_by_id st cid then (Invalid_category, st, r1)
        else (case read_line 256 r1 of (n, r2) \<Rightarrow>
                (Transaction_added,
                 st\<lparr>txns := txns st @ [t\<lparr>category_id := cid, txn_note := n\<rparr>]\<rparr>, r2)))"

text \<open>\<open>default_date\<close> is today's date as \<open>snprintf\<close> renders the clock. The id is taken
  from \<open>txns.next_id\<close>, and the counter advanced, before anything is read.\<close>

definition add_transaction :: "string \<Rightarrow> stores \<Rightarrow> string \<Rightarrow> message \<times> stores \<times> string" where
  "add_transaction default_date st inp =
     (let tid = txns_next_id st;
          st1 = st\<lparr>txns_next_id := txns_next_id st + 1\<rparr>
      in case read_line 11 inp of (d0, r1) \<Rightarrow>
         let d = (if d0 = [] then default_date else d0)
         in if parse_date d = None then (Invalid_date_format, st1, r1)
            else (case read_int r1 of (tp, r2) \<Rightarrow>
                  let ty = (if tp \<noteq> 1 then TYPE_EXPENSE else TYPE_INCOME)
                  in case read_double r2 of (a, r3) \<Rightarrow>
                     if a \<le> 0 then (Amount_must_be_positive, st1, r3)
                     else let t = \<lparr>txn_id = tid, date = d, amount = a, category_id = 0,
                                    txn_type = ty, txn_note = []\<rparr>
                          in if cats st1 = []
                             then (case add_category st1 r3 of (m, st2, r4) \<Rightarrow>
                                     if cats st2 = [] then (No_categories_abort, st2, r4)
                                     else add_transaction_finish t st2 r4)
                             else add_transaction_finish t st1 r3))"

definition edit_transaction :: "stores \<Rightarrow> string \<Rightarrow> message \<times> stores \<times> string" where
  "edit_transaction st inp =
     (case read_int inp of (i, r0) \<Rightarrow>
      case find_txn_index_by_id st i of
        None \<Rightarrow> (Not_found, st, r0)
      | Some idx \<Rightarrow>
         (let t = txns st ! idx
          in case read_line 11 r0 of (buf, r1) \<Rightarrow>
             let t1 = (if buf \<noteq> [] \<and> parse_date buf \<noteq> None then t\<lparr>date := buf\<rparr> else t)
             in case read_int r1 of (tp, r2) \<Rightarrow>
                let t2 = (if tp = 0 then t1\<lparr>txn_type := TYPE_EXPENSE\<rparr>
                          else if tp = 1 then t1\<lparr>txn_type := TYPE_INCOME\<rparr> else t1)
                in case read_double r2 of (a, r3) \<Rightarrow>
                   let t3 = (if 0 < a then t2\<lparr>amount := a\<rparr> else t2)
                   in case read_int r3 of (cid, r4) \<Rightarrow>
                      let t4 = (if cid \<noteq> 0 \<and> find_category_by_id st cid
                                then t3\<lparr>category_id := cid\<rparr> else t3)
                      in case read_line 256 r4 of (nb, r5) \<Rightarrow>
                         let t5 = (if nb \<noteq> [] then t4\<lparr>txn_note := take 255 nb\<rparr> else t4)
                         in (Updated, st\<lparr>txns := (txns st)[idx := t5]\<rparr>, r5)))"

definition remove_transaction :: "stores \<Rightarrow> string \<Rightarrow> message \<times> stores \<times> string" where
  "remove_transaction st inp =
     (case read_int inp of (i, r) \<Rightarrow>
      case find_txn_index_by_id st i of
        None \<Rightarrow> (Not_found, st, r)
      | Some idx \<Rightarrow> (Deleted, st\<lparr>txns := butlast ((txns st)[idx := last (txns st)])\<rparr>, r))"

subsection \<open>Budgets\<close>

text \<open>The search loop of \<open>set_budget\<close>: the first entry with the triple gets the new amount;
  \<open>None\<close> when the loop ends without a match.\<close>

fun update_existing ::
  "int \<Rightarrow> int \<Rightarrow> int \<Rightarrow> real \<Rightarrow> BudgetEntry list \<Rightarrow> BudgetEntry list option" where
  "update_existing cid y m amt [] = None"
| "update_existing cid y m amt (b # bs) =
     (if b_category_id b = cid \<and> b_year b = y \<and> b_month b = m
      then Some (b\<lparr>b_amount := amt\<rparr> # bs)
      else map_option ((#) b) (update_existing cid y m amt bs))"

definition set_budget :: "stores \<Rightarrow> string \<Rightarrow> message \<times> stores \<times> string" where
  "set_budget st inp =
     (case read_int inp of (cid, r1) \<Rightarrow>
        if \<not> find_category_by_id st cid then (Invalid_category, st, r1)
        else (case read_int r1 of (y, r2) \<Rightarrow>
              case read_int r2 of (m, r3) \<Rightarrow>
                if m < 1 \<or> m > 12 then (Invalid_month, st, r3)
                else (case read_double r3 of (amt, r4) \<Rightarrow>
                        if amt < 0 then (Invalid_amount, st, r4)
                        else (case update_existing cid y m amt (budgets st) of
                                Some bs \<Rightarrow> (Updated_budget, st\<lparr>budgets := bs\<rparr>, r4)
                              | None \<Rightarrow>
                                  (Budget_set,
                                   st\<lparr>budgets := budgets st @
                                        [\<lparr>b_category_id = cid, b_year = y, b_month = m,
                                          b_amount = amt\<rparr>]\<rparr>, r4)))))"

subsection \<open>Monthly total of a category\<close>

text \<open>\<open>snprintf(buf, 11, "%04d-%02d-01", year, month)\<close>: at most ten characters are kept.\<close>

definition month_start :: "int \<Rightarrow> int \<Rightarrow> string" where
  "month_start y m = take 10 (fmt_0d 4 y @ [CHR ''-''] @ fmt_0d 2 m @ ''-01'')"

text \<open>The loop of \<open>total_for_category_month\<close> with its three \<open>continue\<close> tests;
  \<open>total += t->amount\<close> and \<open>total -= t->amount\<close> are additions and subtractions of
  doubles, rounded at every step.\<close>

fun total_loop ::
  "int \<Rightarrow> string \<Rightarrow> string \<Rightarrow> Transaction list \<Rightarrow> real option \<Rightarrow> real option" where
  "total_loop c smin smax [] tot = tot"
| "total_loop c smin smax (t # ts) tot =
     (if category_id t \<noteq> c then total_loop c smin smax ts tot
      else if compare_dates (date t) smin < 0 then total_loop c smin smax ts tot
      else if compare_dates (date t) smax \<ge> 0 then total_loop c smin smax ts tot
      else if txn_type t = TYPE_EXPENSE
        then total_loop c smin smax ts (double_add tot (amount t))
      else total_loop c smin smax ts (double_sub tot (amount t)))"

definition total_for_category_month :: "stores \<Rightarrow> int \<Rightarrow> int \<Rightarrow> int \<Rightarrow> real option" where
  "total_for_category_month st c year month =
     (let smin = month_start year month;
          nmonth = (if month = 12 then 1 else month + 1);
          nyear = (if month = 12 then year + 1 else year);
          smax = month_start nyear nmonth
      in total_loop c smin smax (txns st) (Some 0))"

section \<open>Persistence\<close>

text \<open>
  A disk maps a path to the bytes of the file, \<open>None\<close> where \<open>fopen\<close> for reading fails;
  \<open>writable\<close> tells whether \<open>fopen\<close> for writing succeeds.
\<close>

record disk =
  contents :: "string \<Rightarrow> byte list option"
  writable :: "string \<Rightarrow> bool"

definition CAT_FILE :: string where "CAT_FILE = ''./categories.dat''"
definition TRAN_FILE :: string where "TRAN_FILE = ''./transactions.dat''"
definition BUD_FILE :: string where "BUD_FILE = ''./budgets.dat''"

text \<open>
  The program writes the memory image of its struct arrays. The size of a struct and the
  bytes of its image are fixed by the compiler, not by finance.c, so they are parameters:
  a layout gives \<open>sizeof\<close> (positive for every C struct), the image of a value and the
  value an image is read as.
\<close>

record 'r layout =
  sizeof :: nat
  to_bytes :: "'r \<Rightarrow> byte list"
  of_bytes :: "byte list \<Rightarrow> 'r"

record layouts =
  Category_layout :: "Category layout"
  Transaction_layout :: "Transaction layout"
  BudgetEntry_layout :: "BudgetEntry layout"

definition array_bytes :: "'r layout \<Rightarrow> 'r list \<Rightarrow> byte list" where
  "array_bytes L xs = concat (map (to_bytes L) xs)"

definition array_of_bytes :: "'r layout \<Rightarrow> nat \<Rightarrow> byte list \<Rightarrow> 'r list" where
  "array_of_bytes L n buf =
     map (\<lambda>i. of_bytes L (take (sizeof L) (drop (i * sizeof L) buf))) [0..<n]"

definition obfuscate_buffer :: "stores \<Rightarrow> byte list \<Rightarrow> byte list" where
  "obfuscate_buffer st buf =
     (if \<not> obfuscate_enabled st \<or> obf_key st = 0 then buf
      else map (\<lambda>b. b XOR obf_key st) buf)"

definition save_binary_file ::
  "stores \<Rightarrow> disk \<Rightarrow> string \<Rightarrow> byte list \<Rightarrow> nat \<Rightarrow> nat \<Rightarrow> disk" where
  "save_binary_file st d path buf count sz =
     (if \<not> writable d path then d
      else d\<lparr>contents := (contents d)(path \<mapsto> obfuscate_buffer st (take (count * sz) buf))\<rparr>)"

text \<open>\<open>load_binary_file\<close> returns the record count together with the bytes it copies to
  the caller's buffer.\<close>

definition load_binary_file ::
  "stores \<Rightarrow> disk \<Rightarrow> string \<Rightarrow> nat \<Rightarrow> nat \<Rightarrow> nat \<times> byte list" where
  "load_binary_file st d path max_count sz =
     (case contents d path of
        None \<Rightarrow> (0, [])
      | Some file \<Rightarrow>
          if length file = 0 then (0, [])
          else let tmp = obfuscate_buffer st file;
                   count = (if length tmp div sz > max_count then max_count
                            else length tmp div sz)
               in (count, take (count * sz) tmp))"

definition max_id :: "int list \<Rightarrow> int" where
  "max_id ids = foldl (\<lambda>maxid i. if i > maxid then i else maxid) 0 ids"

text \<open>The three parts of \<open>load_all\<close>: categories, transactions, budgets.\<close>

definition load_cats :: "layouts \<Rightarrow> disk \<Rightarrow> stores \<Rightarrow> stores" where
  "load_cats LS d st =
     (let Lc = Category_layout LS
      in case load_binary_file st d CAT_FILE 1024 (sizeof Lc) of (count, catbuf) \<Rightarrow>
           if count \<noteq> 0
           then st\<lparr>cats := array_of_bytes Lc count catbuf,
                   cats_next_id := max_id (map cat_id (array_of_bytes Lc count catbuf)) + 1\<rparr>
           else st)"

definition load_txns :: "layouts \<Rightarrow> disk \<Rightarrow> stores \<Rightarrow> stores" where
  "load_txns LS d st =
     (let Lt = Transaction_layout LS
      in case contents d TRAN_FILE of
           None \<Rightarrow> st
         | Some file \<Rightarrow>
             if length file > 0
             then let tmp = obfuscate_buffer st file;
                      countt = length file div sizeof Lt
                  in st\<lparr>txns := array_of_bytes Lt countt tmp,
                         txns_next_id := max_id (map txn_id (array_of_bytes Lt countt tmp)) + 1\<rparr>
             else st)"

definition load_budgets :: "layouts \<Rightarrow> disk \<Rightarrow> stores \<Rightarrow> stores" where
  "load_budgets LS d st =
     (let Lb = BudgetEntry_layout LS
      in case load_binary_file st d BUD_FILE 1024 (sizeof Lb) of (bc, bbuf) \<Rightarrow>
           if bc \<noteq> 0 then st\<lparr>budgets := array_of_bytes Lb bc bbuf\<rparr> else st)"

definition load_all :: "layouts \<Rightarrow> disk \<Rightarrow> stores \<Rightarrow> stores" where
  "load_all LS d st = load_budgets LS d (load_txns LS d (load_cats LS d st))"

definition save_all :: "layouts \<Rightarrow> stores \<Rightarrow> disk \<Rightarrow> disk" where
  "save_all LS st d =
     (let Lc = Category_layout LS; Lt = Transaction_layout LS; Lb = BudgetEntry_layout LS;
          d1 = (if length (cats st) \<noteq> 0
                then save_binary_file st d CAT_FILE (array_bytes Lc (cats st))
                       (length (cats st)) (sizeof Lc)
                else d);
          d2 = (if length (txns st) \<noteq> 0
                then save_binary_file st d1 TRAN_FILE (array_bytes Lt (txns st))
                       (length (txns st)) (sizeof Lt)
                else d1)
      in if length (budgets st) \<noteq> 0
         then save_binary_file st d2 BUD_FILE (array_bytes Lb (budgets st))
                (length (budgets st)) (sizeof Lb)
         else d2)"

section \<open>CSV export and import\<close>

definition category_name_of :: "stores \<Rightarrow> int \<Rightarrow> string" where
  "category_name_of st cid =
     (case find_category_index_by_id st cid of
        None \<Rightarrow> ''UNKNOWN'' | Some idx \<Rightarrow> cat_name (cats st ! idx))"

text \<open>One \<open>fprintf(f, "%d,%s,%d,%.2f,%s,%s\n", ...)\<close> of \<open>export_csv\<close>.\<close>

definition export_line :: "stores \<Rightarrow> Transaction \<Rightarrow> string" where
  "export_line st t =
     fmt_d (txn_id t) @ '','' @ date t @ '','' @
     fmt_d (case txn_type t of TYPE_EXPENSE \<Rightarrow> 0 | TYPE_INCOME \<Rightarrow> 1) @ '','' @
     fmt_2f (amount t) @ '','' @ category_name_of st (category_id t) @ '','' @
     txn_note t @ [CHR 0x0A]"

text \<open>\<open>export_csv\<close> yields the text written to the file, \<open>None\<close> when the file cannot be
  opened (\<open>opened = False\<close>).\<close>

definition export_csv :: "stores \<Rightarrow> bool \<Rightarrow> string option" where
  "export_csv st opened =
     (if \<not> opened then None
      else Some (''id,date,type,amount,category,note'' @ [CHR 0x0A] @
                 concat (map (export_line st) (txns st))))"

text \<open>The body of the \<open>while\<close> loop of \<open>import_csv\<close> for one line behind the header; every
  \<open>continue\<close> leaves the stores as they are.\<close>

definition import_line :: "string \<Rightarrow> stores \<Rightarrow> stores" where
  "import_line line st =
     (case strtok '','' line of None \<Rightarrow> st
      | Some (tok1, p1) \<Rightarrow>
     (case strtok '','' p1 of None \<Rightarrow> st
      | Some (tok2, p2) \<Rightarrow>
     (case strtok '','' p2 of None \<Rightarrow> st
      | Some (tok3, p3) \<Rightarrow>
     (case strtok '','' p3 of None \<Rightarrow> st
      | Some (tok4, p4) \<Rightarrow>
         let ty = atoi tok2;
             amt = atof tok3;
             category = take 63 tok4;
             nt = (case strtok [CHR 0x0A] p4 of None \<Rightarrow> [] | Some (tok5, p5) \<Rightarrow> take 255 tok5);
             d = takeWhile (\<lambda>c. \<not> is_eol c) (take 10 tok1)
         in if parse_date d = None then st
            else let cid0 = (case find (\<lambda>c. strcasecmp (cat_name c) category = 0) (cats st) of
                               None \<Rightarrow> - 1 | Some c \<Rightarrow> cat_id c);
                     st1 = (if cid0 < 0
                            then st\<lparr>cats := cats st @
                                      [\<lparr>cat_id = cats_next_id st, cat_name = category\<rparr>],
                                    cats_next_id := cats_next_id st + 1\<rparr>
                            else st);
                     cid = (if cid0 < 0 then cats_next_id st else cid0)
                 in st1\<lparr>txns := txns st1 @
                          [\<lparr>txn_id = txns_next_id st1, date = d, amount = amt,
                            category_id = cid,
                            txn_type = (if ty = 1 then TYPE_INCOME else TYPE_EXPENSE),
                            txn_note = nt\<rparr>],
                        txns_next_id := txns_next_id st1 + 1\<rparr>))))"

function import_loop :: "string \<Rightarrow> int \<Rightarrow> stores \<Rightarrow> stores" where
  "import_loop f lineno st =
     (case fgets 1024 f of
        None \<Rightarrow> st
      | Some (line, rest) \<Rightarrow>
          if lineno + 1 = 1 then import_loop rest (lineno + 1) st
          else import_loop rest (lineno + 1) (import_line line st))"
  by pat_completeness auto
termination
proof -
  have weak: "length (snd (fgets_take n s)) \<le> length s" for n s
  proof (induction s arbitrary: n)
    case Nil
    show ?case by simp
  next
    case (Cons c cs)
    have "length (snd (fgets_take (n - 1) cs)) \<le> length cs" by (rule Cons.IH)
    then show ?case by (auto split: prod.splits)
  qed
  have shrink: "length r < length s" if "fgets 1024 s = Some (l, r)" for s l r
  proof (cases s)
    case Nil
    with that show ?thesis by (simp add: fgets_def)
  next
    case (Cons c cs)
    show ?thesis
    proof (cases "c = CHR 0x0A")
      case True
      with that Cons show ?thesis by (simp add: fgets_def)
    next
      case False
      have "length (snd (fgets_take 1022 cs)) \<le> length cs" by (rule weak)
      with that Cons False show ?thesis
        by (auto simp: fgets_def split: prod.splits)
    qed
  qed
  show ?thesis
    by (relation "measure (\<lambda>(f, lineno, st). length f)") (auto dest: shrink)
qed

declare import_loop.simps [simp del]

text \<open>\<open>import_csv\<close> on the text of the file, \<open>None\<close> when the file cannot be opened.\<close>

definition import_csv :: "string option \<Rightarrow> stores \<Rightarrow> stores" where
  "import_csv file st = (case file of None \<Rightarrow> st | Some f \<Rightarrow> import_loop f 0 st)"

section \<open>Notions of the specification\<close>

text \<open>
  The fixed-width shape \<open>YYYY-MM-DD\<close>: ten characters, digits everywhere but for the two
  hyphens. \<open>date_ymd\<close> reads the year, month and day of such a string, and \<open>ymd_less\<close>
  is the chronological order.
\<close>

definition wf_date :: "string \<Rightarrow> bool" where
  "wf_date d =
     (length d = 10 \<and> list_all isdigit (take 4 d) \<and> d ! 4 = CHR ''-'' \<and>
      list_all isdigit (take 2 (drop 5 d)) \<and> d ! 7 = CHR ''-'' \<and>
      list_all isdigit (drop 8 d))"

definition date_ymd :: "string \<Rightarrow> int \<times> int \<times> int" where
  "date_ymd d =
     (int (dec_val (take 4 d)), int (dec_val (take 2 (drop 5 d))), int (dec_val (drop 8 d)))"

fun ymd_less :: "int \<times> int \<times> int \<Rightarrow> int \<times> int \<times> int \<Rightarrow> bool" where
  "ymd_less (y1, m1, d1) (y2, m2, d2) =
     (y1 < y2 \<or> (y1 = y2 \<and> (m1 < m2 \<or> (m1 = m2 \<and> d1 < d2))))"

text \<open>The form the date validator is specified to accept: the fixed-width shape with a
  month from 1 to 12 and a day from 1 to 31.\<close>

definition canonical_date :: "string \<Rightarrow> bool" where
  "canonical_date d =
     (wf_date d \<and>
      (case date_ymd d of (y, m, dd) \<Rightarrow> 1 \<le> m \<and> m \<le> 12 \<and> 1 \<le> dd \<and> dd \<le> 31))"

text \<open>The half-open month interval: from the first day of \<open>(y, m)\<close> up to, not including,
  the first day of the next month, where the next month of \<open>(y, 12)\<close> is \<open>(y + 1, 1)\<close>.
  The day a date string stands for is the year, month and day the program reads from it
  with \<open>sscanf_date\<close>; for a string of the fixed-width shape that is \<open>date_ymd\<close>.\<close>

definition next_month :: "int \<Rightarrow> int \<Rightarrow> int \<times> int" where
  "next_month y m = (if m = 12 then (y + 1, 1) else (y, m + 1))"

definition in_month :: "int \<Rightarrow> int \<Rightarrow> string \<Rightarrow> bool" where
  "in_month y m d =
     (case sscanf_date d of
        None \<Rightarrow> False
      | Some ymd \<Rightarrow>
          \<not> ymd_less ymd (y, m, 1) \<and>
          ymd_less ymd (fst (next_month y m), snd (next_month y m), 1))"

text \<open>The transactions of a category whose date lies in the month interval, in the order
  of the store.\<close>

definition monthlyCategoryTxns ::
  "Transaction list \<Rightarrow> int \<Rightarrow> int \<Rightarrow> int \<Rightarrow> Transaction list" where
  "monthlyCategoryTxns ts c y m =
     filter (\<lambda>t. category_id t = c \<and> in_month y m (date t)) ts"

text \<open>The monthly category net in the specification's words: the sum of the Expense
  amounts minus the sum of the Income amounts over those transactions.\<close>

definition monthlyCategoryNet :: "Transaction list \<Rightarrow> int \<Rightarrow> int \<Rightarrow> int \<Rightarrow> real" where
  "monthlyCategoryNet ts c y m =
     (let sel = monthlyCategoryTxns ts c y m
      in sum_list (map amount (filter (\<lambda>t. txn_type t = TYPE_EXPENSE) sel)) -
         sum_list (map amount (filter (\<lambda>t. txn_type t = TYPE_INCOME) sel)))"

text \<open>The net of a list of transactions as double arithmetic accumulates it: from \<open>0.0\<close>,
  in the order of the list, the amount of an Expense added and the amount of an Income
  subtracted, each result rounded.\<close>

definition accumulated_net :: "Transaction list \<Rightarrow> real option" where
  "accumulated_net sel =
     foldl (\<lambda>tot t. if txn_type t = TYPE_EXPENSE then double_add tot (amount t)
                     else double_sub tot (amount t)) (Some 0) sel"

text \<open>No step of that accumulation, started at \<open>tot\<close>, rounds or overflows: every exact
  intermediate result is a double.\<close>

fun exact_steps :: "real \<Rightarrow> Transaction list \<Rightarrow> bool" where
  "exact_steps tot [] = True"
| "exact_steps tot (t # ts) =
     (let s = (if txn_type t = TYPE_EXPENSE then tot + amount t else tot - amount t)
      in round_double s = Some s \<and> exact_steps s ts)"

text \<open>The number that the first four decimal digits of a year write; the year itself
  below 10000.\<close>

function lead4 :: "int \<Rightarrow> int" where
  "lead4 y = (if y < 10000 then y else lead4 (y div 10))"
  by pat_completeness auto
termination
  by (relation "measure nat") auto

declare lead4.simps [simp del]

text \<open>Uniqueness invariants of the data model: category ids, and budget keys.\<close>

definition unique_category_ids :: "stores \<Rightarrow> bool" where
  "unique_category_ids st = distinct (map cat_id (cats st))"

text \<open>Category ids are unique and lie below the id counter.\<close>

definition category_ids_ok :: "stores \<Rightarrow> bool" where
  "category_ids_ok st =
     (unique_category_ids st \<and> list_all (\<lambda>c. cat_id c < cats_next_id st) (cats st))"

definition budget_key :: "BudgetEntry \<Rightarrow> int \<times> int \<times> int" where
  "budget_key b = (b_category_id b, b_year b, b_month b)"

definition unique_budget_keys :: "BudgetEntry list \<Rightarrow> bool" where
  "unique_budget_keys bs = distinct (map budget_key bs)"

text \<open>The whole records a file holds, read with the obfuscation setting of \<open>st\<close>.\<close>

definition file_records :: "'r layout \<Rightarrow> stores \<Rightarrow> disk \<Rightarrow> string \<Rightarrow> 'r list" where
  "file_records L st d path =
     (case contents d path of
        None \<Rightarrow> []
      | Some file \<Rightarrow> array_of_bytes L (length file div sizeof L) (obfuscate_buffer st file))"

text \<open>A value fits a layout when its image has the layout's size and reads back as the
  value; in C every value of the struct type does.\<close>

definition fits :: "'r layout \<Rightarrow> 'r \<Rightarrow> bool" where
  "fits L r = (length (to_bytes L r) = sizeof L \<and> of_bytes L (to_bytes L r) = r)"

text \<open>Stores without records that carry the obfuscation setting of \<open>st\<close>: what a process
  holds before \<open>load_all\<close> when it uses that setting.\<close>

definition fresh_stores :: "stores \<Rightarrow> stores" where
  "fresh_stores st =
     initial_stores\<lparr>obfuscate_enabled := obfuscate_enabled st, obf_key := obf_key st\<rparr>"

text \<open>The four answers the \<open>set_budget\<close> dialogue reads when no check stops it:
  category id, year, month and amount.\<close>

definition budget_inputs :: "string \<Rightarrow> int \<times> int \<times> int \<times> real" where
  "budget_inputs inp =
     (case read_int inp of (cid, r1) \<Rightarrow>
      case read_int r1 of (y, r2) \<Rightarrow>
      case read_int r2 of (m, r3) \<Rightarrow>
      case read_double r3 of (amt, r4) \<Rightarrow> (cid, y, m, amt))"

text \<open>The budget list after a set that passed its checks: the entry of the triple
  overwritten, or a new entry appended.\<close>

definition upsert :: "int \<Rightarrow> int \<Rightarrow> int \<Rightarrow> real \<Rightarrow> BudgetEntry list \<Rightarrow> BudgetEntry list" where
  "upsert cid y m amt bs =
     (case update_existing cid y m amt bs of
        Some cs \<Rightarrow> cs
      | None \<Rightarrow> bs @ [\<lparr>b_category_id = cid, b_year = y, b_month = m, b_amount = amt\<rparr>])"

text \<open>Three-way comparison of numbers, with the result values of \<open>strcmp\<close>.\<close>

definition cmp3 :: "nat \<Rightarrow> nat \<Rightarrow> int" where
  "cmp3 a b = (if a < b then - 1 else if a = b then 0 else 1)"

subsection \<open>A sample layout\<close>

text \<open>
  One layout that satisfies the assumptions made on layouts below: 32-bit little-endian
  integers, NUL-padded character arrays, and the amount held in eight bytes as a count
  of hundredths (a stand-in for the IEEE image of a \<open>double\<close>, which is not modelled).
\<close>

definition le_bytes :: "nat \<Rightarrow> int \<Rightarrow> byte list" where
  "le_bytes n v = map (\<lambda>i. word_of_int (v div 256 ^ i)) [0..<n]"

definition le_int :: "byte list \<Rightarrow> int" where
  "le_int bs =
     (let u = foldr (\<lambda>b acc. uint b + 256 * acc) bs 0
      in if u \<ge> 2 ^ (8 * length bs - 1) then u - 2 ^ (8 * length bs) else u)"

definition str_bytes :: "nat \<Rightarrow> string \<Rightarrow> byte list" where
  "str_bytes n s =
     map (\<lambda>c. word_of_nat (of_char c)) (take (n - 1) s) @
     replicate (n - length (take (n - 1) s)) 0"

definition bytes_str :: "byte list \<Rightarrow> string" where
  "bytes_str bs = map (\<lambda>b. char_of (unat b)) (takeWhile (\<lambda>b. b \<noteq> 0) bs)"

definition sample_Category_layout :: "Category layout" where
  "sample_Category_layout =
     \<lparr>sizeof = 68,
      to_bytes = (\<lambda>c. le_bytes 4 (cat_id c) @ str_bytes 64 (cat_name c)),
      of_bytes = (\<lambda>bs. \<lparr>cat_id = le_int (take 4 bs), cat_name = bytes_str (drop 4 bs)\<rparr>)\<rparr>"

definition sample_Transaction_layout :: "Transaction layout" where
  "sample_Transaction_layout =
     \<lparr>sizeof = 288,
      to_bytes = (\<lambda>t. le_bytes 4 (txn_id t) @ str_bytes 11 (date t) @ [0] @
                       le_bytes 8 \<lfloor>amount t * 100\<rfloor> @ le_bytes 4 (category_id t) @
                       le_bytes 4 (case txn_type t of TYPE_EXPENSE \<Rightarrow> 0 | TYPE_INCOME \<Rightarrow> 1) @
                       str_bytes 256 (txn_note t)),
      of_bytes = (\<lambda>bs. \<lparr>txn_id = le_int (take 4 bs),
                         date = bytes_str (take 11 (drop 4 bs)),
                         amount = real_of_int (le_int (take 8 (drop 16 bs))) / 100,
                         category_id = le_int (take 4 (drop 24 bs)),
                         txn_type = (if le_int (take 4 (drop 28 bs)) = 1 then TYPE_INCOME
                                     else TYPE_EXPENSE),
                         txn_note = bytes_str (drop 32 bs)\<rparr>)\<rparr>"

definition sample_BudgetEntry_layout :: "BudgetEntry layout" where
  "sample_BudgetEntry_layout =
     \<lparr>sizeof = 24,
      to_bytes = (\<lambda>b. le_bytes 4 (b_category_id b) @ le_bytes 4 (b_year b) @
                       le_bytes 4 (b_month b) @ [0, 0, 0, 0] @
                       le_bytes 8 \<lfloor>b_amount b * 100\<rfloor>),
      of_bytes = (\<lambda>bs. \<lparr>b_category_id = le_int (take 4 bs),
                         b_year = le_int (take 4 (drop 4 bs)),
                         b_month = le_int (take 4 (drop 8 bs)),
                         b_amount = real_of_int (le_int (take 8 (drop 16 bs))) / 100\<rparr>)\<rparr>"

definition sample_layouts :: layouts where
  "sample_layouts =
     \<lparr>Category_layout = sample_Category_layout,
      Transaction_layout = sample_Transaction_layout,
      BudgetEntry_layout = sample_BudgetEntry_layout\<rparr>"

subsection \<open>Sample stores and inputs\<close>

text \<open>A text made of the given lines, each ended by a newline.\<close>

definition lines :: "string list \<Rightarrow> string" where
  "lines ls = concat (map (\<lambda>l. l @ [CHR 0x0A]) ls)"

text \<open>A disk without files, on which every file can be written.\<close>

definition empty_disk :: disk where
  "empty_disk = \<lparr>contents = (\<lambda>p. None), writable = (\<lambda>p. True)\<rparr>"

definition food :: Category where
  "food = \<lparr>cat_id = 1, cat_name = ''Food''\<rparr>"

definition lunch :: Transaction where
  "lunch = \<lparr>txn_id = 1, date = ''2024-03-15'', amount = 42.5, category_id = 1,
            txn_type = TYPE_EXPENSE, txn_note = ''lunch''\<rparr>"

definition food_store :: stores where
  "food_store = initial_stores\<lparr>txns := [lunch], txns_next_id := 2,
                                cats := [food], cats_next_id := 2\<rparr>"

text \<open>A store with one transaction dated in December 9999.\<close>

definition december_store :: stores where
  "december_store = food_store\<lparr>txns := [lunch\<lparr>date := ''9999-12-15''\<rparr>]\<rparr>"

text \<open>A store with one transaction dated in the year 1001.\<close>

definition year_1001_store :: stores where
  "year_1001_store = food_store\<lparr>txns := [lunch\<lparr>date := ''1001-01-15''\<rparr>]\<rparr>"

text \<open>A store whose transaction carries a date without zero padding.\<close>

definition unpadded_store :: stores where
  "unpadded_store = food_store\<lparr>txns := [lunch\<lparr>date := ''2024-9-1xx''\<rparr>]\<rparr>"

text \<open>A store with three expenses of March 2024: \<open>2^53\<close>, 1 and 1.\<close>

definition large_store :: stores where
  "large_store =
     food_store\<lparr>txns := [lunch\<lparr>amount := 9007199254740992\<rparr>,
                          lunch\<lparr>txn_id := 2, amount := 1\<rparr>,
                          lunch\<lparr>txn_id := 3, amount := 1\<rparr>],
                 txns_next_id := 4\<rparr>"

text \<open>A store with a record in each collection and obfuscation switched on.\<close>

definition march_budget :: BudgetEntry where
  "march_budget = \<lparr>b_category_id = 1, b_year = 2024, b_month = 3, b_amount = 100\<rparr>"

definition budget_store :: stores where
  "budget_store = food_store\<lparr>budgets := [march_budget], obfuscate_enabled := True,
                              obf_key := 0x5A\<rparr>"

text \<open>A store with 1025 categories, numbered from 1.\<close>

definition many_categories :: stores where
  "many_categories =
     initial_stores\<lparr>cats := map (\<lambda>i. \<lparr>cat_id = int i, cat_name = ''c''\<rparr>) [1..<1026],
                     cats_next_id := 1026\<rparr>"

text \<open>A disk whose category and transaction files hold 1025 records each.\<close>

definition full_disk :: disk where
  "full_disk =
     \<lparr>contents = (\<lambda>p. if p = CAT_FILE then Some (replicate (1025 * 68) 0)
                       else if p = TRAN_FILE then Some (replicate (1025 * 288) 0) else None),
      writable = (\<lambda>p. True)\<rparr>"

text \<open>A store with 1025 budget entries, one for January of each of the years 1 to 1025.\<close>

definition many_budgets :: stores where
  "many_budgets =
     initial_stores\<lparr>budgets := map (\<lambda>i. \<lparr>b_category_id = 1, b_year = int i, b_month = 1,
                                           b_amount = 0\<rparr>) [1..<1026]\<rparr>"

text \<open>A disk that holds a budget file with one entry, and no other file.\<close>

definition old_budget_disk :: disk where
  "old_budget_disk =
     \<lparr>contents = (\<lambda>p. if p = BUD_FILE then Some (to_bytes sample_BudgetEntry_layout march_budget)
                       else None),
      writable = (\<lambda>p. True)\<rparr>"

text \<open>A store with a second category that no transaction refers to.\<close>

definition rent :: Category where
  "rent = \<lparr>cat_id = 2, cat_name = ''Rent''\<rparr>"

definition two_category_store :: stores where
  "two_category_store = food_store\<lparr>cats := [food, rent], cats_next_id := 3\<rparr>"

text \<open>A store with five transactions: an expense and an income of category 1 in March
  2024, an expense of category 2 in that month, and expenses of category 1 on the first
  day of April and on the last day of February.\<close>

definition refund :: Transaction where
  "refund = \<lparr>txn_id = 2, date = ''2024-03-31'', amount = 2.25, category_id = 1,
             txn_type = TYPE_INCOME, txn_note = ''refund''\<rparr>"

definition ledger_store :: stores where
  "ledger_store =
     two_category_store\<lparr>txns := [lunch, refund, lunch\<lparr>txn_id := 3, category_id := 2\<rparr>,
                                  lunch\<lparr>txn_id := 4, date := ''2024-04-01''\<rparr>,
                                  lunch\<lparr>txn_id := 5, date := ''2024-02-29''\<rparr>],
                         txns_next_id := 6\<rparr>"

section \<open>Evaluation of the model on concrete inputs\<close>

lemmas scan_simps =
  lines_def parse_date_def sscanf_date_def scan_d_def scan_lit_def isdigit_def isspace_def
  dec_val_def digit_val_def

lemmas input_simps =
  read_line_def read_int_def read_double_def fgets_def is_eol_def atoi_def atof_def

lemmas char_simps = digit_char_def char_of_def bit_Suc_0_iff

section \<open>Dates\<close>

subsection \<open>Decimal strings compare like the numbers they denote\<close>

lemma dec_val_foldl:
  "foldl (\<lambda>acc c. acc * 10 + digit_val c) a cs = a * 10 ^ length cs + dec_val cs"
proof (induction cs arbitrary: a)
  case Nil
  show ?case by (simp add: dec_val_def)
next
  case (Cons c cs)
  have "foldl (\<lambda>acc c. acc * 10 + digit_val c) a (c # cs) =
        (a * 10 + digit_val c) * 10 ^ length cs + dec_val cs"
    by (simp add: Cons.IH)
  moreover have "dec_val (c # cs) = digit_val c * 10 ^ length cs + dec_val cs"
    by (simp add: dec_val_def Cons.IH [of "digit_val c"])
  ultimately show ?case by (simp add: algebra_simps)
qed

lemma dec_val_Nil: "dec_val [] = 0"
  by (simp add: dec_val_def)

lemma dec_val_Cons: "dec_val (c # cs) = digit_val c * 10 ^ length cs + dec_val cs"
  using dec_val_foldl [of "digit_val c" cs] by (simp add: dec_val_def)

lemma dec_val_append: "dec_val (xs @ ys) = dec_val xs * 10 ^ length ys + dec_val ys"
  using dec_val_foldl [of "dec_val xs" ys] by (simp add: dec_val_def)

lemma digit_val_less: "isdigit c \<Longrightarrow> digit_val c < 10"
  by (auto simp: isdigit_def digit_val_def)

lemma dec_val_bound: "list_all isdigit cs \<Longrightarrow> dec_val cs < 10 ^ length cs"
proof (induction cs)
  case Nil
  show ?case by (simp add: dec_val_Nil)
next
  case (Cons c cs)
  then have "digit_val c \<le> 9" and "dec_val cs < 10 ^ length cs"
    using digit_val_less [of c] by auto
  then have "digit_val c * 10 ^ length cs + dec_val cs < 9 * 10 ^ length cs + 10 ^ length cs"
    by (meson add_le_less_mono mult_le_mono1)
  then show ?case by (simp add: dec_val_Cons)
qed

lemma digit_val_inj: "isdigit a \<Longrightarrow> isdigit b \<Longrightarrow> digit_val a = digit_val b \<Longrightarrow> a = b"
proof -
  assume "isdigit a" "isdigit b" "digit_val a = digit_val b"
  then have "(of_char a :: nat) = of_char b"
    unfolding isdigit_def digit_val_def by linarith
  then show "a = b" by simp
qed

lemma digit_val_mono: "isdigit a \<Longrightarrow> isdigit b \<Longrightarrow> (of_char a :: nat) < of_char b \<longleftrightarrow> digit_val a < digit_val b"
  by (auto simp: isdigit_def digit_val_def)

lemma strcmp_digits:
  "length xs = length ys \<Longrightarrow> list_all isdigit xs \<Longrightarrow> list_all isdigit ys \<Longrightarrow>
   strcmp xs ys = cmp3 (dec_val xs) (dec_val ys)"
proof (induction xs ys rule: list_induct2)
  case Nil
  show ?case by (simp add: dec_val_Nil cmp3_def)
next
  case (Cons x xs y ys)
  then have dx: "isdigit x" and dy: "isdigit y"
    and lx: "list_all isdigit xs" and ly: "list_all isdigit ys"
    and IH: "strcmp xs ys = cmp3 (dec_val xs) (dec_val ys)"
    by auto
  have bx: "dec_val xs < 10 ^ length xs" by (rule dec_val_bound [OF lx])
  have "dec_val ys < 10 ^ length ys" by (rule dec_val_bound [OF ly])
  with Cons.hyps have by': "dec_val ys < 10 ^ length xs" by simp
  show ?case
  proof (cases "x = y")
    case True
    with IH show ?thesis by (simp add: dec_val_Cons cmp3_def Cons.hyps)
  next
    case False
    with dx dy have ne: "digit_val x \<noteq> digit_val y" using digit_val_inj by blast
    show ?thesis
    proof (cases "digit_val x < digit_val y")
      case True
      then have "digit_val x + 1 \<le> digit_val y" by simp
      then have "(digit_val x + 1) * 10 ^ length xs \<le> digit_val y * 10 ^ length xs"
        by (rule mult_le_mono1)
      with bx have "digit_val x * 10 ^ length xs + dec_val xs < digit_val y * 10 ^ length xs + dec_val ys"
        by (simp add: algebra_simps)
      with True False dx dy show ?thesis
        by (simp add: dec_val_Cons cmp3_def Cons.hyps digit_val_mono)
    next
      case F2: False
      with ne have gt: "digit_val y < digit_val x" by simp
      then have "digit_val y + 1 \<le> digit_val x" by simp
      then have "(digit_val y + 1) * 10 ^ length xs \<le> digit_val x * 10 ^ length xs"
        by (rule mult_le_mono1)
      with by' have "digit_val y * 10 ^ length xs + dec_val ys < digit_val x * 10 ^ length xs + dec_val xs"
        by (simp add: algebra_simps)
      with gt False dx dy F2 show ?thesis
        by (simp add: dec_val_Cons cmp3_def Cons.hyps digit_val_mono)
    qed
  qed
qed

lemma strcmp_append:
  "length xs = length ys \<Longrightarrow>
   strcmp (xs @ us) (ys @ vs) = (if strcmp xs ys = 0 then strcmp us vs else strcmp xs ys)"
  by (induction xs ys rule: list_induct2) auto

lemma strcmp_Cons_same: "strcmp (c # us) (c # vs) = strcmp us vs"
  by simp

subsection \<open>Well-formed dates compare chronologically\<close>

lemma wf_date_split:
  assumes "wf_date d"
  shows "d = take 4 d @ CHR ''-'' # take 2 (drop 5 d) @ CHR ''-'' # drop 8 d"
proof -
  from assms have len: "length d = 10" and h4: "d ! 4 = CHR ''-''" and h7: "d ! 7 = CHR ''-''"
    by (simp_all add: wf_date_def)
  have "d = take 4 d @ d ! 4 # drop 5 d"
    using id_take_nth_drop [of 4 d] len by simp
  moreover have "drop 5 d = take 2 (drop 5 d) @ (drop 5 d) ! 2 # drop 3 (drop 5 d)"
    using id_take_nth_drop [of 2 "drop 5 d"] len by simp
  moreover have "(drop 5 d) ! 2 = d ! 7" using len by simp
  moreover have "drop 3 (drop 5 d) = drop 8 d" by simp
  ultimately show ?thesis using h4 h7 by metis
qed

lemma compare_wf_dates:
  assumes a: "wf_date a" and b: "wf_date b"
  shows "compare_dates a b < 0 \<longleftrightarrow> ymd_less (date_ymd a) (date_ymd b)"
    and "compare_dates a b = 0 \<longleftrightarrow> date_ymd a = date_ymd b"
proof -
  let ?Y = "take 4 a" and ?M = "take 2 (drop 5 a)" and ?D = "drop 8 a"
  let ?Y' = "take 4 b" and ?M' = "take 2 (drop 5 b)" and ?D' = "drop 8 b"
  from a b have len: "length a = 10" "length b = 10" by (simp_all add: wf_date_def)
  from a have da: "list_all isdigit ?Y" "list_all isdigit ?M" "list_all isdigit ?D"
    by (simp_all add: wf_date_def)
  from b have db: "list_all isdigit ?Y'" "list_all isdigit ?M'" "list_all isdigit ?D'"
    by (simp_all add: wf_date_def)
  have cy: "strcmp ?Y ?Y' = cmp3 (dec_val ?Y) (dec_val ?Y')"
    using len da db by (intro strcmp_digits) simp_all
  have cm: "strcmp ?M ?M' = cmp3 (dec_val ?M) (dec_val ?M')"
    using len da db by (intro strcmp_digits) simp_all
  have cd: "strcmp ?D ?D' = cmp3 (dec_val ?D) (dec_val ?D')"
    using len da db by (intro strcmp_digits) simp_all
  have "strcmp a b = strcmp (?Y @ CHR ''-'' # ?M @ CHR ''-'' # ?D)
                            (?Y' @ CHR ''-'' # ?M' @ CHR ''-'' # ?D')"
    using wf_date_split [OF a] wf_date_split [OF b] by simp
  also have "\<dots> = (if strcmp ?Y ?Y' = 0
                    then strcmp (?M @ CHR ''-'' # ?D) (?M' @ CHR ''-'' # ?D')
                    else strcmp ?Y ?Y')"
    using len
    by (simp add: strcmp_append [of ?Y ?Y' "CHR ''-'' # ?M @ CHR ''-'' # ?D"
          "CHR ''-'' # ?M' @ CHR ''-'' # ?D'"])
  also have "strcmp (?M @ CHR ''-'' # ?D) (?M' @ CHR ''-'' # ?D') =
             (if strcmp ?M ?M' = 0 then strcmp ?D ?D' else strcmp ?M ?M')"
    using len
    by (simp add: strcmp_append [of ?M ?M' "CHR ''-'' # ?D" "CHR ''-'' # ?D'"])
  finally have eq: "strcmp a b =
      (if cmp3 (dec_val ?Y) (dec_val ?Y') = 0
       then (if cmp3 (dec_val ?M) (dec_val ?M') = 0 then cmp3 (dec_val ?D) (dec_val ?D')
             else cmp3 (dec_val ?M) (dec_val ?M'))
       else cmp3 (dec_val ?Y) (dec_val ?Y'))"
    by (simp only: cy cm cd)
  show "compare_dates a b < 0 \<longleftrightarrow> ymd_less (date_ymd a) (date_ymd b)"
    using eq by (auto simp: compare_dates_def date_ymd_def cmp3_def split: if_splits)
  show "compare_dates a b = 0 \<longleftrightarrow> date_ymd a = date_ymd b"
    using eq by (auto simp: compare_dates_def date_ymd_def cmp3_def split: if_splits)
qed

subsection \<open>The date validator\<close>

text \<open>Every string of the specified form is accepted, with the year, month and day it
  shows.\<close>

lemma isdigit_not_space_sign:
  "isdigit c \<Longrightarrow> \<not> isspace c \<and> c \<noteq> CHR ''-'' \<and> c \<noteq> CHR ''+''"
  by (auto simp: isdigit_def isspace_def)

lemma scan_d_digits:
  assumes dig: "list_all isdigit ds" and len: "length ds = w" and ne: "ds \<noteq> []"
  shows "scan_d w (ds @ rest) = Some (int (dec_val ds), rest)"
proof -
  from ne obtain c cs where ds: "ds = c # cs" by (cases ds) auto
  with dig have c: "isdigit c" by simp
  then have nc: "\<not> isspace c" "c \<noteq> CHR ''-''" "c \<noteq> CHR ''+''"
    using isdigit_not_space_sign by blast+
  have s1: "dropWhile isspace (ds @ rest) = ds @ rest" using nc ds by simp
  have tw: "takeWhile isdigit ds = ds"
    using dig by (simp add: takeWhile_eq_all_conv list_all_iff)
  have sg: "(case ds @ rest of [] \<Rightarrow> False
             | c # cs \<Rightarrow> (c = CHR ''-'' \<or> c = CHR ''+'') \<and> 0 < length ds) = False"
    using nc by (simp add: ds)
  have "scan_d (length ds) (ds @ rest) = Some (int (dec_val ds), rest)"
    using ne by (simp add: scan_d_def Let_def s1 sg tw)
  with len show ?thesis by simp
qed

lemma sscanf_date_wf:
  assumes wf: "wf_date d"
  shows "sscanf_date d = Some (date_ymd d)"
proof -
  let ?Y = "take 4 d" and ?M = "take 2 (drop 5 d)" and ?D = "drop 8 d"
  from wf have len: "length d = 10" by (simp add: wf_date_def)
  from wf have dig: "list_all isdigit ?Y" "list_all isdigit ?M" "list_all isdigit ?D"
    by (simp_all add: wf_date_def)
  have split: "d = ?Y @ CHR ''-'' # ?M @ CHR ''-'' # ?D" using wf by (rule wf_date_split)
  have y: "scan_d 4 (?Y @ CHR ''-'' # ?M @ CHR ''-'' # ?D) =
           Some (int (dec_val ?Y), CHR ''-'' # ?M @ CHR ''-'' # ?D)"
    using dig(1) len by (intro scan_d_digits) auto
  have m: "scan_d 2 (?M @ CHR ''-'' # ?D) = Some (int (dec_val ?M), CHR ''-'' # ?D)"
    using dig(2) len by (intro scan_d_digits) auto
  have dd: "scan_d 2 (?D @ []) = Some (int (dec_val ?D), [])"
    using dig(3) len by (intro scan_d_digits) auto
  have "sscanf_date (?Y @ CHR ''-'' # ?M @ CHR ''-'' # ?D) =
        Some (int (dec_val ?Y), int (dec_val ?M), int (dec_val ?D))"
    using dd by (simp add: sscanf_date_def y m scan_lit_def)
  with split show ?thesis by (simp add: date_ymd_def)
qed

lemma parse_date_accepts_canonical:
  assumes "canonical_date d"
  shows "parse_date d = Some (date_ymd d)"
proof -
  from assms have wf: "wf_date d" by (simp add: canonical_date_def)
  then have len: "length d = 10" by (simp add: wf_date_def)
  from sscanf_date_wf [OF wf] assms len show ?thesis
    by (auto simp: parse_date_def canonical_date_def split: prod.splits)
qed

text \<open>
  Claim C5: \<open>parse_date\<close> accepts a string if and only if it has the fixed ten-character
  zero-padded form \<open>YYYY-MM-DD\<close> with a month from 1 to 12 and a day from 1 to 31, so
  that on accepted strings the lexicographic order is the chronological one.

  The code does not keep this. \<open>sscanf\<close> with \<open>%2d\<close> reads one digit as well as two, and
  the length test counts any trailing characters: \<open>2024-9-1xx\<close> is accepted as
  1 September 2024 although it is not of the form, and it compares greater than the
  accepted \<open>2024-10-01\<close>, a later day.
\<close>

theorem parse_date_accepts_unpadded:
  "parse_date ''2024-9-1xx'' = Some (2024, 9, 1) \<and>
   \<not> canonical_date ''2024-9-1xx'' \<and>
   parse_date ''2024-10-01'' = Some (2024, 10, 1) \<and>
   canonical_date ''2024-10-01'' \<and>
   ymd_less (2024, 9, 1) (2024, 10, 1) \<and>
   compare_dates ''2024-9-1xx'' ''2024-10-01'' > 0"
  by (simp add: scan_simps canonical_date_def wf_date_def date_ymd_def compare_dates_def)

section \<open>The monthly category net\<close>

subsection \<open>The formatted month bounds\<close>

lemma isdigit_digit_char: "k < 10 \<Longrightarrow> isdigit (digit_char k)"
  by (simp add: isdigit_def digit_char_def)

lemma digit_val_digit_char: "k < 10 \<Longrightarrow> digit_val (digit_char k) = k"
  by (simp add: digit_val_def digit_char_def)

lemma digits10_isdigit: "list_all isdigit (digits10 n)"
proof (induction n rule: digits10.induct)
  case (1 n)
  show ?case
  proof (cases "n < 10")
    case True
    then show ?thesis by (simp add: digits10.simps [of n] isdigit_digit_char)
  next
    case False
    with "1.IH" show ?thesis by (simp add: digits10.simps [of n] isdigit_digit_char)
  qed
qed

lemma dec_val_digits10: "dec_val (digits10 n) = n"
proof (induction n rule: digits10.induct)
  case (1 n)
  show ?case
  proof (cases "n < 10")
    case True
    then show ?thesis
      by (simp add: digits10.simps [of n] dec_val_Cons dec_val_Nil digit_val_digit_char)
  next
    case False
    with "1.IH" show ?thesis
      by (simp add: digits10.simps [of n] dec_val_append dec_val_Cons dec_val_Nil
          digit_val_digit_char)
  qed
qed

lemma length_digits10: "n < 10 ^ w \<Longrightarrow> 0 < w \<Longrightarrow> length (digits10 n) \<le> w"
proof (induction n arbitrary: w rule: digits10.induct)
  case (1 n)
  show ?case
  proof (cases "n < 10")
    case True
    with "1.prems" show ?thesis by (simp add: digits10.simps [of n])
  next
    case False
    with "1.prems" have w2: "1 < w" by (cases "w = 1") auto
    then obtain v where v: "w = Suc v" "0 < v" by (cases w) auto
    with "1.prems" have "n div 10 < 10 ^ v" by (simp add: less_mult_imp_div_less)
    with "1.IH" [OF False this] v have "length (digits10 (n div 10)) \<le> v" by simp
    with False v show ?thesis by (simp add: digits10.simps [of n])
  qed
qed

lemma dec_val_zeros: "dec_val (replicate k CHR ''0'' @ ds) = dec_val ds"
  by (induction k) (simp_all add: dec_val_Cons digit_val_def)

lemma isdigit_zero: "isdigit CHR ''0''"
  by (simp add: isdigit_def)

lemma fmt_0d_nonneg:
  assumes "0 \<le> i" "i < 10 ^ w" "0 < w"
  shows "length (fmt_0d w i) = w" "list_all isdigit (fmt_0d w i)" "dec_val (fmt_0d w i) = nat i"
proof -
  from assms have "nat i < 10 ^ w"
    by (metis nat_less_iff of_nat_numeral of_nat_power)
  then have len: "length (digits10 (nat i)) \<le> w" using assms(3) by (rule length_digits10)
  from assms(1) have eq: "fmt_0d w i = replicate (w - length (digits10 (nat i))) CHR ''0'' @ digits10 (nat i)"
    by (simp add: fmt_0d_def Let_def)
  show "length (fmt_0d w i) = w" using len by (simp add: eq)
  show "list_all isdigit (fmt_0d w i)"
    using digits10_isdigit [of "nat i"] by (auto simp: eq isdigit_zero list_all_iff)
  show "dec_val (fmt_0d w i) = nat i" by (simp add: eq dec_val_zeros dec_val_digits10)
qed

lemma month_start_eq:
  assumes "0 \<le> y" "y \<le> 9999" "0 \<le> m" "m \<le> 99"
  shows "month_start y m = fmt_0d 4 y @ CHR ''-'' # fmt_0d 2 m @ CHR ''-'' # ''01''"
proof -
  have "length (fmt_0d 4 y) = 4" using assms by (intro fmt_0d_nonneg) auto
  moreover have "length (fmt_0d 2 m) = 2" using assms by (intro fmt_0d_nonneg) auto
  ultimately show ?thesis by (simp add: month_start_def)
qed

lemma month_start_wf:
  assumes "0 \<le> y" "y \<le> 9999" "0 \<le> m" "m \<le> 99"
  shows "wf_date (month_start y m)" and "date_ymd (month_start y m) = (y, m, 1)"
proof -
  have fy: "length (fmt_0d 4 y) = 4" "list_all isdigit (fmt_0d 4 y)" "dec_val (fmt_0d 4 y) = nat y"
    using assms by (simp_all add: fmt_0d_nonneg)
  have fm: "length (fmt_0d 2 m) = 2" "list_all isdigit (fmt_0d 2 m)" "dec_val (fmt_0d 2 m) = nat m"
    using assms by (simp_all add: fmt_0d_nonneg)
  have eq: "month_start y m = fmt_0d 4 y @ CHR ''-'' # fmt_0d 2 m @ CHR ''-'' # ''01''"
    using assms by (rule month_start_eq)
  show "wf_date (month_start y m)"
    using fy fm by (simp add: eq wf_date_def nth_append isdigit_def)
  show "date_ymd (month_start y m) = (y, m, 1)"
    using fy fm assms by (simp add: eq date_ymd_def dec_val_Cons dec_val_Nil digit_val_def)
qed

lemma compare_month_start:
  assumes wf: "wf_date d" and y: "0 \<le> y" "y \<le> 9999" and m: "0 \<le> m" "m \<le> 99"
  shows "compare_dates d (month_start y m) < 0 \<longleftrightarrow> ymd_less (date_ymd d) (y, m, 1)"
  using compare_wf_dates(1) [OF wf month_start_wf(1) [OF y m]] month_start_wf(2) [OF y m]
  by simp

subsection \<open>Month bounds of negative years and of years beyond 9999\<close>

text \<open>The bound of a negative year starts with a minus sign, which sorts before every
  digit: each date of the fixed-width shape compares greater.\<close>

lemma month_start_negative:
  assumes "y < 0"
  shows "\<exists>rest. month_start y m = CHR ''-'' # rest"
  using assms by (simp add: month_start_def fmt_0d_def Let_def)

lemma wf_date_head:
  assumes "wf_date d"
  shows "\<exists>c cs. d = c # cs \<and> isdigit c"
proof -
  from assms have len: "length d = 10" and dig: "list_all isdigit (take 4 d)"
    by (simp_all add: wf_date_def)
  from len obtain c cs where d: "d = c # cs" by (cases d) auto
  with dig have "isdigit c" by simp
  with d show ?thesis by blast
qed

lemma compare_month_start_negative:
  assumes wf: "wf_date d" and y: "y < 0"
  shows "compare_dates d (month_start y m) = 1"
proof -
  from month_start_negative [OF y] obtain rest where s: "month_start y m = CHR ''-'' # rest"
    by blast
  from wf_date_head [OF wf] obtain c cs where d: "d = c # cs" and c: "isdigit c" by blast
  from c have "c \<noteq> CHR ''-''" "\<not> (of_char c :: nat) < of_char CHR ''-''"
    by (auto simp: isdigit_def)
  then show ?thesis by (simp add: compare_dates_def s d)
qed

lemma date_year_range:
  assumes "wf_date d"
  shows "0 \<le> fst (date_ymd d)" "fst (date_ymd d) < 10000"
proof -
  from assms have "list_all isdigit (take 4 d)" "length d = 10" by (simp_all add: wf_date_def)
  then have "dec_val (take 4 d) < 10 ^ 4" using dec_val_bound [of "take 4 d"] by simp
  then show "fst (date_ymd d) < 10000" by (simp add: date_ymd_def)
  show "0 \<le> fst (date_ymd d)" by (simp add: date_ymd_def)
qed

text \<open>The bound of a year of five or more digits keeps the leading digits of the year; a
  date of the fixed-width shape has its first hyphen where the bound has its fifth digit,
  so the comparison is decided by the first four digits.\<close>

lemma lead4_range: "1000 \<le> y \<Longrightarrow> 1000 \<le> lead4 y \<and> lead4 y < 10000"
proof (induction y rule: lead4.induct)
  case (1 y)
  show ?case
  proof (cases "y < 10000")
    case True
    with "1.prems" show ?thesis by (simp add: lead4.simps [of y])
  next
    case False
    then have "1000 \<le> y div 10" by simp
    from "1.IH" [OF False this] False show ?thesis by (simp add: lead4.simps [of y])
  qed
qed

lemma length_digits10_lower: "10 ^ k \<le> n \<Longrightarrow> k < length (digits10 n)"
proof (induction n arbitrary: k rule: digits10.induct)
  case (1 n)
  show ?case
  proof (cases "n < 10")
    case True
    have "k = 0"
    proof (rule ccontr)
      assume "k \<noteq> 0"
      then obtain j where "k = Suc j" by (cases k) auto
      with "1.prems" have "10 * 10 ^ j \<le> n" by simp
      moreover have "(1::nat) \<le> 10 ^ j" by simp
      ultimately show False using True by linarith
    qed
    with True show ?thesis by (simp add: digits10.simps [of n])
  next
    case False
    show ?thesis
    proof (cases k)
      case 0
      then show ?thesis using False by (simp add: digits10.simps [of n])
    next
      case (Suc j)
      with "1.prems" have "10 ^ j \<le> n div 10" by simp
      from "1.IH" [OF False this] Suc False show ?thesis by (simp add: digits10.simps [of n])
    qed
  qed
qed

lemma take4_digits10: "1000 \<le> y \<Longrightarrow> take 4 (digits10 (nat y)) = digits10 (nat (lead4 y))"
proof (induction y rule: lead4.induct)
  case (1 y)
  show ?case
  proof (cases "y < 10000")
    case True
    with "1.prems" have "nat y < 10 ^ 4" by simp
    then have "length (digits10 (nat y)) \<le> 4" by (rule length_digits10) simp
    with True show ?thesis by (simp add: lead4.simps [of y])
  next
    case False
    then have big: "1000 \<le> y div 10" by simp
    have nd: "nat y div 10 = nat (y div 10)" using False by (simp add: nat_div_distrib)
    from big have "10 ^ 3 \<le> nat (y div 10)" by simp
    then have len: "3 < length (digits10 (nat (y div 10)))" by (rule length_digits10_lower)
    from False have "\<not> nat y < 10" by simp
    then have "digits10 (nat y) = digits10 (nat (y div 10)) @ [digit_char (nat y mod 10)]"
      by (simp add: digits10.simps [of "nat y"] nd)
    with len have "take 4 (digits10 (nat y)) = take 4 (digits10 (nat (y div 10)))" by simp
    with "1.IH" [OF False big] False show ?thesis by (simp add: lead4.simps [of y])
  qed
qed

lemma strcmp_wf_long:
  assumes wf: "wf_date d" and p: "length p = 4" "list_all isdigit p" and x: "isdigit x"
  shows "strcmp d (p @ x # rest) < 0 \<longleftrightarrow> dec_val (take 4 d) \<le> dec_val p"
proof -
  from wf have len: "length d = 10" and dig: "list_all isdigit (take 4 d)"
    by (simp_all add: wf_date_def)
  let ?tail = "CHR ''-'' # take 2 (drop 5 d) @ CHR ''-'' # drop 8 d"
  have split: "d = take 4 d @ ?tail" using wf_date_split [OF wf] .
  have cy: "strcmp (take 4 d) p = cmp3 (dec_val (take 4 d)) (dec_val p)"
    using len p dig by (intro strcmp_digits) simp_all
  from x have "CHR ''-'' \<noteq> x" "(of_char CHR ''-'' :: nat) < of_char x"
    by (auto simp: isdigit_def)
  then have tl: "strcmp ?tail (x # rest) = - 1" by simp
  have "strcmp d (p @ x # rest) = strcmp (take 4 d @ ?tail) (p @ x # rest)"
    using split by simp
  also have "\<dots> = (if strcmp (take 4 d) p = 0 then strcmp ?tail (x # rest)
                    else strcmp (take 4 d) p)"
    using len p by (intro strcmp_append) simp
  finally show ?thesis by (simp only: cy tl) (auto simp: cmp3_def)
qed

lemma month_start_long:
  assumes "10000 \<le> y"
  shows "\<exists>x rest. month_start y m = digits10 (nat (lead4 y)) @ x # rest \<and> isdigit x"
proof -
  let ?ds = "digits10 (nat y)"
  from assms have "10 ^ 4 \<le> nat y" by simp
  then have len: "4 < length ?ds" by (rule length_digits10_lower)
  then have f: "fmt_0d 4 y = ?ds" using assms by (simp add: fmt_0d_def Let_def)
  have ds: "?ds = take 4 ?ds @ ?ds ! 4 # drop 5 ?ds"
    using id_take_nth_drop [OF len] by simp
  have t4: "take 4 ?ds = digits10 (nat (lead4 y))" using assms by (intro take4_digits10) simp
  have "isdigit (?ds ! 4)"
    using digits10_isdigit [of "nat y"] len by (simp add: list_all_length)
  moreover have "month_start y m =
      take 4 ?ds @ ?ds ! 4 # take 5 (drop 5 ?ds @ [CHR ''-''] @ fmt_0d 2 m @ ''-01'')"
  proof -
    have "month_start y m =
          take 10 ((take 4 ?ds @ ?ds ! 4 # drop 5 ?ds) @ [CHR ''-''] @ fmt_0d 2 m @ ''-01'')"
      using ds by (simp add: month_start_def f)
    also have "\<dots> =
          take 4 ?ds @ ?ds ! 4 # take 5 (drop 5 ?ds @ [CHR ''-''] @ fmt_0d 2 m @ ''-01'')"
      using len by simp
    finally show ?thesis .
  qed
  ultimately show ?thesis using t4 by metis
qed

lemma compare_month_start_long:
  assumes wf: "wf_date d" and y: "10000 \<le> y"
  shows "compare_dates d (month_start y m) < 0 \<longleftrightarrow> fst (date_ymd d) \<le> lead4 y"
proof -
  from month_start_long [OF y] obtain x rest
    where s: "month_start y m = digits10 (nat (lead4 y)) @ x # rest" and x: "isdigit x"
    by blast
  from y have r: "1000 \<le> lead4 y" "lead4 y < 10000" using lead4_range [of y] by simp_all
  then have "nat (lead4 y) < 10 ^ 4" "10 ^ 3 \<le> nat (lead4 y)" by simp_all
  then have "length (digits10 (nat (lead4 y))) \<le> 4" "3 < length (digits10 (nat (lead4 y)))"
    using length_digits10 [of "nat (lead4 y)" 4] length_digits10_lower [of 3 "nat (lead4 y)"]
    by simp_all
  then have len: "length (digits10 (nat (lead4 y))) = 4" by simp
  have "strcmp d (digits10 (nat (lead4 y)) @ x # rest) < 0 \<longleftrightarrow>
        dec_val (take 4 d) \<le> dec_val (digits10 (nat (lead4 y)))"
    using wf len digits10_isdigit x by (rule strcmp_wf_long)
  then show ?thesis
    using r by (simp add: compare_dates_def s dec_val_digits10 date_ymd_def le_nat_iff)
qed

subsection \<open>The two string comparisons select the month interval\<close>

lemma next_month_range:
  assumes "0 \<le> y" "y \<le> 9999" "1 \<le> m" "m \<le> 12" "y < 9999 \<or> m < 12"
  shows "0 \<le> fst (next_month y m)" "fst (next_month y m) \<le> 9999"
        "0 \<le> snd (next_month y m)" "snd (next_month y m) \<le> 99"
  using assms by (auto simp: next_month_def)

lemma in_month_wf:
  assumes "wf_date d"
  shows "in_month y m d \<longleftrightarrow>
         \<not> ymd_less (date_ymd d) (y, m, 1) \<and>
         ymd_less (date_ymd d) (fst (next_month y m), snd (next_month y m), 1)"
  by (simp add: in_month_def sscanf_date_wf [OF assms])

lemma month_select:
  assumes wf: "wf_date d" and m: "1 \<le> month" "month \<le> 12"
    and nd: "year < 9999 \<or> month < 12 \<or> (10000 \<le> year \<and> lead4 (year + 1) \<le> lead4 year)"
  shows "(\<not> compare_dates d (month_start year month) < 0 \<and>
          compare_dates d (month_start (fst (next_month year month))
                                       (snd (next_month year month))) < 0)
         \<longleftrightarrow> in_month year month d"
proof -
  let ?ny = "fst (next_month year month)" and ?nm = "snd (next_month year month)"
  obtain dy dm dd where ymd: "date_ymd d = (dy, dm, dd)" by (cases "date_ymd d")
  from date_year_range [OF wf] ymd have dy: "0 \<le> dy" "dy < 10000" by simp_all
  have nm: "1 \<le> ?nm" "?nm \<le> 12" using m by (auto simp: next_month_def)
  consider (neg) "year < 0" | (mid) "0 \<le> year" "year \<le> 9999" | (big) "10000 \<le> year"
    by linarith
  then show ?thesis
  proof cases
    case neg
    have lo: "compare_dates d (month_start year month) = 1"
      using wf neg by (rule compare_month_start_negative)
    have lo': "\<not> ymd_less (dy, dm, dd) (year, month, 1)" using neg dy by simp
    show ?thesis
    proof (cases "?ny < 0")
      case True
      have "compare_dates d (month_start ?ny ?nm) = 1"
        using wf True by (rule compare_month_start_negative)
      moreover have "\<not> ymd_less (dy, dm, dd) (?ny, ?nm, 1)" using True dy by simp
      ultimately show ?thesis by (simp add: in_month_wf [OF wf] ymd)
    next
      case False
      with neg have ny: "0 \<le> ?ny" "?ny \<le> 9999" by (auto simp: next_month_def split: if_splits)
      have "compare_dates d (month_start ?ny ?nm) < 0 \<longleftrightarrow>
            ymd_less (date_ymd d) (?ny, ?nm, 1)"
        using wf ny nm by (intro compare_month_start) auto
      with lo lo' show ?thesis by (simp add: in_month_wf [OF wf] ymd)
    qed
  next
    case mid
    with nd have nd': "year < 9999 \<or> month < 12" by auto
    have lo: "compare_dates d (month_start year month) < 0 \<longleftrightarrow>
              ymd_less (date_ymd d) (year, month, 1)"
      using wf mid m by (intro compare_month_start) auto
    have hi: "compare_dates d (month_start ?ny ?nm) < 0 \<longleftrightarrow>
              ymd_less (date_ymd d) (?ny, ?nm, 1)"
      using wf next_month_range [OF mid m nd'] by (intro compare_month_start)
    show ?thesis by (simp only: lo hi in_month_wf [OF wf])
  next
    case big
    then have bigny: "10000 \<le> ?ny" by (auto simp: next_month_def)
    have lo: "compare_dates d (month_start year month) < 0 \<longleftrightarrow> dy \<le> lead4 year"
      using compare_month_start_long [OF wf big, of month] ymd by simp
    have hi: "compare_dates d (month_start ?ny ?nm) < 0 \<longleftrightarrow> dy \<le> lead4 ?ny"
      using compare_month_start_long [OF wf bigny, of ?nm] ymd by simp
    have "lead4 ?ny \<le> lead4 year"
      using nd big by (auto simp: next_month_def)
    then have lhs: "\<not> (\<not> dy \<le> lead4 year \<and> dy \<le> lead4 ?ny)" by linarith
    have "ymd_less (dy, dm, dd) (year, month, 1)" using big dy by simp
    then have "\<not> in_month year month d" by (simp add: in_month_wf [OF wf] ymd)
    with lhs show ?thesis by (simp only: lo hi)
  qed
qed

subsection \<open>The loop accumulates the selected transactions\<close>

lemma total_loop_foldl:
  "total_loop c smin smax ts acc =
     foldl (\<lambda>tot t. if txn_type t = TYPE_EXPENSE then double_add tot (amount t)
                     else double_sub tot (amount t)) acc
       (filter (\<lambda>t. category_id t = c \<and> \<not> compare_dates (date t) smin < 0 \<and>
                      compare_dates (date t) smax < 0) ts)"
  by (induction ts arbitrary: acc) simp_all

lemma exact_steps_sum:
  "exact_steps a sel \<Longrightarrow>
   foldl (\<lambda>tot t. if txn_type t = TYPE_EXPENSE then double_add tot (amount t)
                   else double_sub tot (amount t)) (Some a) sel =
   Some (a + sum_list (map amount (filter (\<lambda>t. txn_type t = TYPE_EXPENSE) sel))
           - sum_list (map amount (filter (\<lambda>t. txn_type t = TYPE_INCOME) sel)))"
proof (induction sel arbitrary: a)
  case Nil
  show ?case by simp
next
  case (Cons t ts)
  show ?case
  proof (cases "txn_type t")
    case TYPE_EXPENSE
    with Cons.prems have r: "round_double (a + amount t) = Some (a + amount t)"
      and e: "exact_steps (a + amount t) ts" by (simp_all add: Let_def)
    from Cons.IH [OF e] TYPE_EXPENSE r show ?thesis
      by (simp add: double_add_def algebra_simps)
  next
    case TYPE_INCOME
    with Cons.prems have r: "round_double (a - amount t) = Some (a - amount t)"
      and e: "exact_steps (a - amount t) ts" by (simp_all add: Let_def)
    from Cons.IH [OF e] TYPE_INCOME r show ?thesis
      by (simp add: double_sub_def algebra_simps)
  qed
qed

text \<open>
  Claim C1, as amended: for every store whose transaction dates have the fixed-width
  shape \<open>YYYY-MM-DD\<close>, every category id, every year and every month from 1 to 12, other
  than December 9999 and the Decembers of those years from 10000 on whose first four digits
  are exceeded by the first four digits of the following year (10009, 10019, \<dots>),
  \<open>total_for_category_month\<close> is the double accumulated from \<open>0.0\<close>, in the order of the
  store and with every step rounded as double arithmetic rounds, by adding the amount of
  each Expense and subtracting the amount of each Income over exactly the transactions of
  the category whose date lies, chronologically, in the half-open interval from the first
  day of the month to the first day of the next month (the next month of \<open>(y, 12)\<close> being
  \<open>(y + 1, 1)\<close>). Whenever no step of that accumulation rounds or overflows, it is the sum
  of the Expense amounts minus the sum of the Income amounts of those transactions.
\<close>

theorem total_for_category_month_net:
  assumes wf: "list_all (\<lambda>t. wf_date (date t)) (txns st)"
    and m: "1 \<le> month" "month \<le> 12"
    and nd: "year < 9999 \<or> month < 12 \<or> (10000 \<le> year \<and> lead4 (year + 1) \<le> lead4 year)"
  shows "total_for_category_month st c year month =
           accumulated_net (monthlyCategoryTxns (txns st) c year month) \<and>
         (exact_steps 0 (monthlyCategoryTxns (txns st) c year month) \<longrightarrow>
          total_for_category_month st c year month =
            Some (monthlyCategoryNet (txns st) c year month))"
proof -
  let ?ny = "fst (next_month year month)" and ?nm = "snd (next_month year month)"
  have smax: "month_start (if month = 12 then year + 1 else year)
                (if month = 12 then 1 else month + 1) = month_start ?ny ?nm"
    by (simp add: next_month_def)
  have sel: "filter (\<lambda>t. category_id t = c \<and> \<not> compare_dates (date t) (month_start year month) < 0 \<and>
                 compare_dates (date t) (month_start ?ny ?nm) < 0) (txns st) =
             monthlyCategoryTxns (txns st) c year month"
    unfolding monthlyCategoryTxns_def
  proof (rule filter_cong [OF refl])
    fix t assume "t \<in> set (txns st)"
    with wf have w: "wf_date (date t)" by (simp add: list_all_iff)
    show "(category_id t = c \<and> \<not> compare_dates (date t) (month_start year month) < 0 \<and>
           compare_dates (date t) (month_start ?ny ?nm) < 0) =
          (category_id t = c \<and> in_month year month (date t))"
      using month_select [OF w m nd] by blast
  qed
  have acc: "total_for_category_month st c year month =
             accumulated_net (monthlyCategoryTxns (txns st) c year month)"
    unfolding total_for_category_month_def accumulated_net_def Let_def smax
    by (simp only: total_loop_foldl sel)
  have "total_for_category_month st c year month =
          Some (monthlyCategoryNet (txns st) c year month)"
    if "exact_steps 0 (monthlyCategoryTxns (txns st) c year month)"
    using exact_steps_sum [OF that]
    by (simp add: acc accumulated_net_def monthlyCategoryNet_def Let_def)
  with acc show ?thesis by blast
qed

subsection \<open>Rounding and month bounds on concrete numbers\<close>

lemma bit_length_bounds:
  "2 ^ b \<le> n \<Longrightarrow> n < 2 ^ Suc b \<Longrightarrow> bit_length n = Suc b"
proof (induction b arbitrary: n)
  case 0
  then have "n = 1" by simp
  then show ?case by (simp add: bit_length.simps [of "Suc 0"] bit_length.simps [of 0])
next
  case (Suc b)
  from Suc.prems have "2 ^ b \<le> n div 2" "n div 2 < 2 ^ Suc b" by auto
  from Suc.IH [OF this] have "bit_length (n div 2) = Suc b" .
  moreover from Suc.prems have "n \<noteq> 0" by auto
  ultimately show ?case by (simp add: bit_length.simps [of n])
qed

lemma round_double_0: "round_double 0 = Some 0"
  by (simp add: round_double_def round_half_even_def bit_length.simps [of 0])

lemma round_double_42_5: "round_double (85 / 2) = Some (85 / 2)"
proof -
  have "bit_length (nat \<lfloor>\<bar>85 / 2 :: real\<bar> * 2 ^ 1074\<rfloor>) = Suc 1079"
    by (rule bit_length_bounds) simp_all
  then show ?thesis by (simp add: round_double_def round_half_even_def Let_def)
qed

lemma round_double_40_25: "round_double (161 / 4) = Some (161 / 4)"
proof -
  have "bit_length (nat \<lfloor>\<bar>161 / 4 :: real\<bar> * 2 ^ 1074\<rfloor>) = Suc 1079"
    by (rule bit_length_bounds) simp_all
  then show ?thesis by (simp add: round_double_def round_half_even_def Let_def)
qed

text \<open>\<open>2^53\<close> is a double; \<open>2^53 + 1\<close> is not, and lies halfway between the doubles
  \<open>2^53\<close> and \<open>2^53 + 2\<close>: it is rounded to \<open>2^53\<close>, whose significand is even.\<close>

lemma round_double_2_53: "round_double 9007199254740992 = Some 9007199254740992"
proof -
  have "bit_length (nat \<lfloor>\<bar>9007199254740992 :: real\<bar> * 2 ^ 1074\<rfloor>) = Suc 1127"
    by (rule bit_length_bounds) simp_all
  then show ?thesis by (simp add: round_double_def round_half_even_def Let_def)
qed

lemma round_double_2_53_1: "round_double 9007199254740993 = Some 9007199254740992"
proof -
  have "bit_length (nat \<lfloor>\<bar>9007199254740993 :: real\<bar> * 2 ^ 1074\<rfloor>) = Suc 1127"
    by (rule bit_length_bounds) simp_all
  then show ?thesis by (simp add: round_double_def round_half_even_def Let_def)
qed

text \<open>The doubles nearest to 0.1 and 0.2 are \<open>3602879701896397 / 2^55\<close> and
  \<open>3602879701896397 / 2^54\<close>. Their exact sum is not a double; it is rounded to
  \<open>5404319552844596 / 2^54\<close>, which prints as \<open>0.30000000000000004\<close>.\<close>

lemma round_double_tenths:
  "round_double (3602879701896397 / 2 ^ 55 + 3602879701896397 / 2 ^ 54) =
     Some (5404319552844596 / 2 ^ 54)"
proof -
  have "bit_length (nat \<lfloor>\<bar>3602879701896397 / 2 ^ 55 + 3602879701896397 / 2 ^ 54 :: real\<bar> *
                         2 ^ 1074\<rfloor>) = Suc 1072"
    by (rule bit_length_bounds) simp_all
  then show ?thesis by (simp add: round_double_def round_half_even_def Let_def)
qed

lemmas month_start_simps = month_start_def fmt_0d_def digits10.simps char_simps

lemma month_start_values:
  "month_start 9999 12 = ''9999-12-01''" "month_start 10000 1 = ''10000-01-0''"
  "month_start 10009 12 = ''10009-12-0''" "month_start 10010 1 = ''10010-01-0''"
  "month_start 2024 3 = ''2024-03-01''" "month_start 2024 4 = ''2024-04-01''"
  "month_start 2024 9 = ''2024-09-01''" "month_start 2024 10 = ''2024-10-01''"
  by (simp_all add: month_start_simps)

lemma lunch_fields:
  "category_id lunch = 1" "txn_type lunch = TYPE_EXPENSE" "amount lunch = 85 / 2"
  "date lunch = ''2024-03-15''"
  by (simp_all add: lunch_def)

subsection \<open>Four stores on which the total is not the net of the month\<close>

lemma december_9999_case:
  "list_all (\<lambda>t. wf_date (date t)) (txns december_store)"
  "monthlyCategoryNet (txns december_store) 1 9999 12 = 42.5"
  "total_for_category_month december_store 1 9999 12 = Some 0"
proof -
  show "list_all (\<lambda>t. wf_date (date t)) (txns december_store)"
    by (simp add: december_store_def food_store_def lunch_def wf_date_def isdigit_def)
  have "in_month 9999 12 ''9999-12-15''"
    by (simp add: in_month_def next_month_def scan_simps)
  then show "monthlyCategoryNet (txns december_store) 1 9999 12 = 42.5"
    by (simp add: monthlyCategoryNet_def monthlyCategoryTxns_def december_store_def
        food_store_def lunch_def)
  show "total_for_category_month december_store 1 9999 12 = Some 0"
    by (simp add: total_for_category_month_def december_store_def food_store_def lunch_def
        month_start_values compare_dates_def)
qed

lemma december_10009_case:
  "list_all (\<lambda>t. wf_date (date t)) (txns year_1001_store)"
  "monthlyCategoryNet (txns year_1001_store) 1 10009 12 = 0"
  "total_for_category_month year_1001_store 1 10009 12 = Some 42.5"
proof -
  show "list_all (\<lambda>t. wf_date (date t)) (txns year_1001_store)"
    by (simp add: year_1001_store_def food_store_def lunch_def wf_date_def isdigit_def)
  have "\<not> in_month 10009 12 ''1001-01-15''"
    by (simp add: in_month_def next_month_def scan_simps)
  then show "monthlyCategoryNet (txns year_1001_store) 1 10009 12 = 0"
    by (simp add: monthlyCategoryNet_def monthlyCategoryTxns_def year_1001_store_def
        food_store_def lunch_def)
  show "total_for_category_month year_1001_store 1 10009 12 = Some 42.5"
    by (simp add: total_for_category_month_def year_1001_store_def food_store_def lunch_def
        month_start_values compare_dates_def double_add_def round_double_42_5)
qed

lemma unpadded_case:
  "add_transaction ''2024-01-01'' (food_store\<lparr>txns := [], txns_next_id := 1\<rparr>)
     (lines [''2024-9-1xx'', ''42.5'', ''1'', ''lunch'']) =
     (Transaction_added, unpadded_store, [])"
  "monthlyCategoryNet (txns unpadded_store) 1 2024 9 = 42.5"
  "total_for_category_month unpadded_store 1 2024 9 = Some 0"
proof -
  show "add_transaction ''2024-01-01'' (food_store\<lparr>txns := [], txns_next_id := 1\<rparr>)
     (lines [''2024-9-1xx'', ''42.5'', ''1'', ''lunch'']) =
     (Transaction_added, unpadded_store, [])"
    by (simp add: add_transaction_def add_transaction_finish_def input_simps scan_simps
        find_category_by_id_def unpadded_store_def food_store_def initial_stores_def
        food_def lunch_def)
  have "in_month 2024 9 ''2024-9-1xx''"
    by (simp add: in_month_def next_month_def scan_simps)
  then show "monthlyCategoryNet (txns unpadded_store) 1 2024 9 = 42.5"
    by (simp add: monthlyCategoryNet_def monthlyCategoryTxns_def unpadded_store_def
        food_store_def lunch_def)
  show "total_for_category_month unpadded_store 1 2024 9 = Some 0"
    by (simp add: total_for_category_month_def unpadded_store_def food_store_def lunch_def
        month_start_values compare_dates_def)
qed

lemma rounding_case:
  "list_all (\<lambda>t. wf_date (date t)) (txns large_store)"
  "monthlyCategoryNet (txns large_store) 1 2024 3 = 9007199254740994"
  "total_for_category_month large_store 1 2024 3 = Some 9007199254740992"
proof -
  show "list_all (\<lambda>t. wf_date (date t)) (txns large_store)"
    by (simp add: large_store_def food_store_def lunch_def wf_date_def isdigit_def)
  have "in_month 2024 3 ''2024-03-15''"
    by (simp add: in_month_def next_month_def scan_simps)
  then show "monthlyCategoryNet (txns large_store) 1 2024 3 = 9007199254740994"
    by (simp add: monthlyCategoryNet_def monthlyCategoryTxns_def large_store_def
        food_store_def lunch_fields)
  show "total_for_category_month large_store 1 2024 3 = Some 9007199254740992"
    by (simp add: total_for_category_month_def large_store_def food_store_def lunch_fields
        month_start_values compare_dates_def double_add_def round_double_2_53
        round_double_2_53_1)
qed

text \<open>
  The claim as stated fails in four ways.

  In December 9999 the upper bound needs five year digits; \<open>snprintf\<close> keeps ten
  characters (\<open>10000-01-0\<close>), every date of the month compares greater than it, and a
  transaction of 15 December 9999 is left out.

  For December 10009 the two bounds are \<open>10009-12-0\<close> and \<open>10010-01-0\<close>, and a transaction
  of the year 1001 lies between them as a string: it is counted.

  The date \<open>2024-9-1xx\<close>, which \<open>add_transaction\<close> accepts and stores as 1 September 2024,
  compares greater than the upper bound \<open>2024-10-01\<close> of September: it is not counted in
  its month.

  The expenses \<open>2^53\<close>, 1 and 1 of one month sum to \<open>2^53 + 2\<close>; accumulated in this
  order as doubles they give \<open>2^53\<close>, because \<open>2^53 + 1\<close> is rounded back to \<open>2^53\<close>
  twice.
\<close>

theorem total_for_category_month_differs:
  "list_all (\<lambda>t. wf_date (date t)) (txns december_store) \<and>
   monthlyCategoryNet (txns december_store) 1 9999 12 = 42.5 \<and>
   total_for_category_month december_store 1 9999 12 = Some 0 \<and>
   list_all (\<lambda>t. wf_date (date t)) (txns year_1001_store) \<and>
   monthlyCategoryNet (txns year_1001_store) 1 10009 12 = 0 \<and>
   total_for_category_month year_1001_store 1 10009 12 = Some 42.5 \<and>
   add_transaction ''2024-01-01'' (food_store\<lparr>txns := [], txns_next_id := 1\<rparr>)
     (lines [''2024-9-1xx'', ''42.5'', ''1'', ''lunch'']) =
     (Transaction_added, unpadded_store, []) \<and>
   monthlyCategoryNet (txns unpadded_store) 1 2024 9 = 42.5 \<and>
   total_for_category_month unpadded_store 1 2024 9 = Some 0 \<and>
   list_all (\<lambda>t. wf_date (date t)) (txns large_store) \<and>
   monthlyCategoryNet (txns large_store) 1 2024 3 = 9007199254740994 \<and>
   total_for_category_month large_store 1 2024 3 = Some 9007199254740992"
  by (intro conjI december_9999_case december_10009_case unpadded_case rounding_case)

text \<open>The net of category 1 for March 2024 in a store that also holds a transaction of
  another category, one of the first day of April and one of the last day of February:
  the expense of 42.50 and the income of 2.25 are selected, no step rounds, and the total
  is 40.25.\<close>

theorem total_for_category_month_net_witness:
  "list_all (\<lambda>t. wf_date (date t)) (txns ledger_store) \<and>
   monthlyCategoryTxns (txns ledger_store) 1 2024 3 = [lunch, refund] \<and>
   exact_steps 0 [lunch, refund] \<and>
   accumulated_net [lunch, refund] = Some 40.25 \<and>
   monthlyCategoryNet (txns ledger_store) 1 2024 3 = 40.25 \<and>
   total_for_category_month ledger_store 1 2024 3 = Some 40.25"
proof -
  have wf: "list_all (\<lambda>t. wf_date (date t)) (txns ledger_store)"
    by (simp add: ledger_store_def lunch_def refund_def wf_date_def isdigit_def)
  have im: "in_month 2024 3 ''2024-03-15''" "in_month 2024 3 ''2024-03-31''"
    "\<not> in_month 2024 3 ''2024-04-01''" "\<not> in_month 2024 3 ''2024-02-29''"
    by (simp_all add: in_month_def next_month_def scan_simps)
  have sel: "monthlyCategoryTxns (txns ledger_store) 1 2024 3 = [lunch, refund]"
    using im by (simp add: monthlyCategoryTxns_def ledger_store_def lunch_def refund_def)
  have ex: "exact_steps 0 [lunch, refund]"
    by (simp add: lunch_def refund_def round_double_42_5 round_double_40_25)
  have net: "monthlyCategoryNet (txns ledger_store) 1 2024 3 = 40.25"
    by (simp add: monthlyCategoryNet_def sel lunch_def refund_def)
  have acc: "accumulated_net [lunch, refund] = Some 40.25"
    by (simp add: accumulated_net_def lunch_def refund_def double_add_def double_sub_def
        round_double_42_5 round_double_40_25)
  from total_for_category_month_net [OF wf, of 3 2024 1] sel ex net acc
  have "total_for_category_month ledger_store 1 2024 3 = Some 40.25" by simp
  with wf sel ex acc net show ?thesis by simp
qed

section \<open>CSV export and import\<close>

text \<open>
  Claim C3: exporting the store with category \<open>Food\<close> (id 1) and the transaction
  \<open>(1, 2024-03-15, Expense, 42.50, category 1, lunch)\<close> writes the data line
  \<open>1,2024-03-15,0,42.50,Food,lunch\<close>, and importing that file into an empty store gives
  one category \<open>Food\<close> and one such transaction with a fresh id.

  The export is as claimed. The import is not: the exported line starts with the id, and
  \<open>import_csv\<close> takes the first field for the date, so \<open>parse_date\<close> rejects \<open>1\<close> and
  the line is skipped. The stores stay empty.
\<close>

theorem export_then_import_skips_line:
  "export_csv food_store True =
     Some (lines [''id,date,type,amount,category,note'',
                  ''1,2024-03-15,0,42.50,Food,lunch'']) \<and>
   import_csv (Some (lines [''id,date,type,amount,category,note'',
                            ''1,2024-03-15,0,42.50,Food,lunch''])) initial_stores =
     initial_stores"
proof
  show "export_csv food_store True =
     Some (lines [''id,date,type,amount,category,note'',
                  ''1,2024-03-15,0,42.50,Food,lunch''])"
    by (simp add: lines_def export_csv_def food_store_def initial_stores_def lunch_def food_def
        export_line_def fmt_d_def fmt_2f_def digits10.simps round_half_even_def
        category_name_of_def find_category_index_by_id_def char_simps)
  show "import_csv (Some (lines [''id,date,type,amount,category,note'',
                            ''1,2024-03-15,0,42.50,Food,lunch''])) initial_stores =
     initial_stores"
    by (simp add: import_csv_def import_loop.simps import_line_def fgets_def strtok_def
        scan_simps is_eol_def atoi_def atof_def)
qed

text \<open>The same record in the five-field form the import reads is taken in, with a fresh id.\<close>

lemma import_five_fields:
  "import_csv (Some (lines [''date,type,amount,category,note'',
                            ''2024-03-15,0,42.50,Food,lunch''])) initial_stores =
     food_store"
  by (simp add: import_csv_def import_loop.simps import_line_def fgets_def strtok_def
      scan_simps is_eol_def atoi_def atof_def initial_stores_def food_store_def food_def
      lunch_def)

section \<open>Persistence\<close>

subsection \<open>Byte buffers and record arrays\<close>

lemma paths_distinct:
  "CAT_FILE \<noteq> TRAN_FILE" "CAT_FILE \<noteq> BUD_FILE" "TRAN_FILE \<noteq> BUD_FILE"
  by (simp_all add: CAT_FILE_def TRAN_FILE_def BUD_FILE_def)

lemma length_obfuscate_buffer: "length (obfuscate_buffer st buf) = length buf"
  by (simp add: obfuscate_buffer_def)

lemma obfuscate_buffer_twice: "obfuscate_buffer st (obfuscate_buffer st buf) = buf"
proof -
  have "map ((\<lambda>b. b XOR obf_key st) \<circ> (\<lambda>b. b XOR obf_key st)) buf = buf"
    by (induction buf) (simp_all add: xor.assoc)
  then show ?thesis by (simp add: obfuscate_buffer_def)
qed

lemma obfuscate_buffer_cong_settings:
  "obfuscate_enabled s = obfuscate_enabled t \<Longrightarrow> obf_key s = obf_key t \<Longrightarrow>
   obfuscate_buffer s buf = obfuscate_buffer t buf"
  by (simp add: obfuscate_buffer_def)

lemma array_of_bytes_0: "array_of_bytes L 0 buf = []"
  by (simp add: array_of_bytes_def)

lemma array_of_bytes_Suc:
  assumes "length b = sizeof L"
  shows "array_of_bytes L (Suc n) (b @ rest) = of_bytes L b # array_of_bytes L n rest"
proof -
  have "[0..<Suc n] = 0 # map Suc [0..<n]"
    by (simp add: upt_conv_Cons map_Suc_upt del: upt_Suc)
  then have "array_of_bytes L (Suc n) (b @ rest) =
      of_bytes L (take (sizeof L) (b @ rest)) #
      map (\<lambda>i. of_bytes L (take (sizeof L) (drop (Suc i * sizeof L) (b @ rest)))) [0..<n]"
    by (simp add: array_of_bytes_def comp_def del: upt_Suc)
  moreover have "drop (Suc i * sizeof L) (b @ rest) = drop (i * sizeof L) rest" for i
    using assms by simp
  ultimately show ?thesis using assms by (simp add: array_of_bytes_def)
qed

lemma length_array_bytes:
  "list_all (fits L) xs \<Longrightarrow> length (array_bytes L xs) = length xs * sizeof L"
  by (induction xs) (simp_all add: array_bytes_def fits_def)

lemma array_of_bytes_array_bytes:
  "list_all (fits L) xs \<Longrightarrow> array_of_bytes L (length xs) (array_bytes L xs) = xs"
proof (induction xs)
  case Nil
  show ?case by (simp add: array_of_bytes_0)
next
  case (Cons x xs)
  then have fx: "length (to_bytes L x) = sizeof L" "of_bytes L (to_bytes L x) = x"
    and IH: "array_of_bytes L (length xs) (array_bytes L xs) = xs"
    by (simp_all add: fits_def)
  have "array_bytes L (x # xs) = to_bytes L x @ array_bytes L xs"
    by (simp add: array_bytes_def)
  then show ?case
    using array_of_bytes_Suc [OF fx(1), of "length xs" "array_bytes L xs"] fx(2) IH by simp
qed

lemma array_of_bytes_take_buf:
  "array_of_bytes L n (take (n * sizeof L) buf) = array_of_bytes L n buf"
proof -
  have "take (sizeof L) (drop (i * sizeof L) (take (n * sizeof L) buf)) =
        take (sizeof L) (drop (i * sizeof L) buf)" if "i < n" for i
  proof -
    from that have "sizeof L + i * sizeof L \<le> n * sizeof L"
      by (metis Suc_leI mult_Suc mult_le_mono1)
    then have "min (sizeof L) (n * sizeof L - i * sizeof L) = sizeof L" by simp
    then show ?thesis by (simp add: drop_take)
  qed
  then show ?thesis by (simp add: array_of_bytes_def)
qed

lemma array_of_bytes_min:
  "array_of_bytes L (min k n) buf = take k (array_of_bytes L n buf)"
proof (cases "k \<le> n")
  case True
  then have "take k [0..<n] = [0..<k]" by (simp add: take_upt)
  with True show ?thesis by (simp add: array_of_bytes_def take_map min_absorb1)
next
  case False
  then show ?thesis by (simp add: array_of_bytes_def min_absorb2)
qed

lemma length_array_of_bytes: "length (array_of_bytes L n buf) = n"
  by (simp add: array_of_bytes_def)

lemma load_binary_file_records:
  "(case load_binary_file st d path mx (sizeof L) of (count, buf) \<Rightarrow> array_of_bytes L count buf) =
   take mx (file_records L st d path)"
proof (cases "contents d path")
  case None
  then show ?thesis by (simp add: load_binary_file_def file_records_def array_of_bytes_0)
next
  case (Some bytes)
  have m: "(if mx < length bytes div sizeof L then mx else length bytes div sizeof L) =
           min mx (length bytes div sizeof L)" by simp
  show ?thesis
  proof (cases "bytes = []")
    case True
    with Some show ?thesis
      by (simp add: load_binary_file_def file_records_def array_of_bytes_0)
  next
    case False
    define n where "n = length bytes div sizeof L"
    define tmp where "tmp = obfuscate_buffer st bytes"
    have recs: "file_records L st d path = array_of_bytes L n tmp"
      using Some by (simp add: file_records_def n_def tmp_def)
    show ?thesis
    proof (cases "mx < n")
      case True
      then have "load_binary_file st d path mx (sizeof L) = (mx, take (mx * sizeof L) tmp)"
        using Some False
        by (simp add: load_binary_file_def Let_def length_obfuscate_buffer n_def tmp_def)
      moreover have "array_of_bytes L mx tmp = take mx (array_of_bytes L n tmp)"
        using array_of_bytes_min [of L mx n tmp] True by (simp add: min_absorb1)
      ultimately show ?thesis by (simp add: recs array_of_bytes_take_buf)
    next
      case nlt: False
      then have "load_binary_file st d path mx (sizeof L) = (n, take (n * sizeof L) tmp)"
        using Some False
        by (simp add: load_binary_file_def Let_def length_obfuscate_buffer n_def tmp_def)
      moreover have "take mx (array_of_bytes L n tmp) = array_of_bytes L n tmp"
        using nlt by (simp add: length_array_of_bytes)
      ultimately show ?thesis by (simp add: recs array_of_bytes_take_buf)
    qed
  qed
qed

lemma load_binary_file_count:
  "fst (load_binary_file st d path mx (sizeof L)) = length (take mx (file_records L st d path))"
proof -
  have "length (case load_binary_file st d path mx (sizeof L) of (count, buf) \<Rightarrow> array_of_bytes L count buf)
        = fst (load_binary_file st d path mx (sizeof L))"
    by (simp add: split_beta length_array_of_bytes)
  then show ?thesis by (simp only: load_binary_file_records)
qed

subsection \<open>What \<open>load_all\<close> leaves in the stores\<close>

lemma file_records_cong_settings:
  "obfuscate_enabled s = obfuscate_enabled t \<Longrightarrow> obf_key s = obf_key t \<Longrightarrow>
   file_records L s d path = file_records L t d path"
  using obfuscate_buffer_cong_settings [of s t]
  by (simp add: file_records_def split: option.splits)

lemma length_file_records:
  "length (file_records L st d path) =
     (case contents d path of None \<Rightarrow> 0 | Some bytes \<Rightarrow> length bytes div sizeof L)"
  by (simp add: file_records_def length_array_of_bytes split: option.splits)

lemma load_all_parts: "load_all LS d st = load_budgets LS d (load_txns LS d (load_cats LS d st))"
  by (simp add: load_all_def)

lemma load_cats_cats:
  assumes "cats st = []"
  shows "cats (load_cats LS d st) = take 1024 (file_records (Category_layout LS) st d CAT_FILE)"
proof -
  let ?L = "Category_layout LS"
  obtain count catbuf where lb: "load_binary_file st d CAT_FILE 1024 (sizeof ?L) = (count, catbuf)"
    by (cases "load_binary_file st d CAT_FILE 1024 (sizeof ?L)")
  have recs: "array_of_bytes ?L count catbuf = take 1024 (file_records ?L st d CAT_FILE)"
    using load_binary_file_records [where L = ?L and st = st and d = d and path = CAT_FILE and mx = 1024] lb by simp
  have cnt: "count = length (take 1024 (file_records ?L st d CAT_FILE))"
    using load_binary_file_count [where L = ?L and st = st and d = d and path = CAT_FILE and mx = 1024] lb by simp
  show ?thesis
  proof (cases "count = 0")
    case True
    with cnt have "file_records ?L st d CAT_FILE = []"
      by (simp add: min_def split: if_splits)
    then have "take 1024 (file_records ?L st d CAT_FILE) = []" by simp
    with True lb assms show ?thesis by (simp add: load_cats_def Let_def)
  next
    case False
    with lb recs show ?thesis by (simp add: load_cats_def Let_def)
  qed
qed

lemma load_cats_other:
  "txns (load_cats LS d st) = txns st" "budgets (load_cats LS d st) = budgets st"
  "obfuscate_enabled (load_cats LS d st) = obfuscate_enabled st"
  "obf_key (load_cats LS d st) = obf_key st"
  by (simp_all add: load_cats_def Let_def split: prod.splits)

lemma load_txns_txns:
  assumes "txns st = []"
  shows "txns (load_txns LS d st) = file_records (Transaction_layout LS) st d TRAN_FILE"
proof (cases "contents d TRAN_FILE")
  case None
  with assms show ?thesis by (simp add: load_txns_def file_records_def)
next
  case (Some bytes)
  with assms show ?thesis
    by (cases "bytes = []") (simp_all add: load_txns_def file_records_def Let_def array_of_bytes_0)
qed

lemma load_txns_other:
  "cats (load_txns LS d st) = cats st" "budgets (load_txns LS d st) = budgets st"
  "obfuscate_enabled (load_txns LS d st) = obfuscate_enabled st"
  "obf_key (load_txns LS d st) = obf_key st"
  by (simp_all add: load_txns_def Let_def split: option.splits)

lemma load_budgets_budgets:
  assumes "budgets st = []"
  shows "budgets (load_budgets LS d st) = take 1024 (file_records (BudgetEntry_layout LS) st d BUD_FILE)"
proof -
  let ?L = "BudgetEntry_layout LS"
  obtain bc bbuf where lb: "load_binary_file st d BUD_FILE 1024 (sizeof ?L) = (bc, bbuf)"
    by (cases "load_binary_file st d BUD_FILE 1024 (sizeof ?L)")
  have recs: "array_of_bytes ?L bc bbuf = take 1024 (file_records ?L st d BUD_FILE)"
    using load_binary_file_records [where L = ?L and st = st and d = d and path = BUD_FILE and mx = 1024] lb by simp
  have cnt: "bc = length (take 1024 (file_records ?L st d BUD_FILE))"
    using load_binary_file_count [where L = ?L and st = st and d = d and path = BUD_FILE and mx = 1024] lb by simp
  show ?thesis
  proof (cases "bc = 0")
    case True
    with cnt have "file_records ?L st d BUD_FILE = []"
      by (simp add: min_def split: if_splits)
    then have "take 1024 (file_records ?L st d BUD_FILE) = []" by simp
    with True lb assms show ?thesis by (simp add: load_budgets_def Let_def)
  next
    case False
    with lb recs show ?thesis by (simp add: load_budgets_def Let_def)
  qed
qed

lemma load_budgets_other:
  "cats (load_budgets LS d st) = cats st" "txns (load_budgets LS d st) = txns st"
  by (simp_all add: load_budgets_def Let_def split: prod.splits)

lemma load_all_cats:
  "cats st = [] \<Longrightarrow>
   cats (load_all LS d st) = take 1024 (file_records (Category_layout LS) st d CAT_FILE)"
  by (simp add: load_all_parts load_budgets_other load_txns_other load_cats_cats)

lemma load_all_txns:
  assumes "txns st = []"
  shows "txns (load_all LS d st) = file_records (Transaction_layout LS) st d TRAN_FILE"
proof -
  have "txns (load_cats LS d st) = []" using assms by (simp add: load_cats_other)
  then have "txns (load_all LS d st) =
             file_records (Transaction_layout LS) (load_cats LS d st) d TRAN_FILE"
    by (simp add: load_all_parts load_budgets_other load_txns_txns)
  also have "\<dots> = file_records (Transaction_layout LS) st d TRAN_FILE"
    by (rule file_records_cong_settings) (simp_all add: load_cats_other)
  finally show ?thesis .
qed

lemma load_all_budgets:
  assumes "budgets st = []"
  shows "budgets (load_all LS d st) = take 1024 (file_records (BudgetEntry_layout LS) st d BUD_FILE)"
proof -
  let ?s2 = "load_txns LS d (load_cats LS d st)"
  have "budgets ?s2 = []" using assms by (simp add: load_txns_other load_cats_other)
  then have "budgets (load_all LS d st) =
             take 1024 (file_records (BudgetEntry_layout LS) ?s2 d BUD_FILE)"
    by (simp add: load_all_parts load_budgets_budgets)
  also have "file_records (BudgetEntry_layout LS) ?s2 d BUD_FILE =
             file_records (BudgetEntry_layout LS) st d BUD_FILE"
    by (rule file_records_cong_settings) (simp_all add: load_txns_other load_cats_other)
  finally show ?thesis .
qed

text \<open>
  Claim C10: after loading into empty stores, the category store and the budget store
  hold the first 1024 whole records of their files and nothing more, so at most 1024
  records each; the transaction store holds every whole record of its file.
\<close>

theorem load_all_caps:
  assumes "cats st = []" "txns st = []" "budgets st = []"
  shows "cats (load_all LS d st) = take 1024 (file_records (Category_layout LS) st d CAT_FILE) \<and>
         budgets (load_all LS d st) = take 1024 (file_records (BudgetEntry_layout LS) st d BUD_FILE) \<and>
         txns (load_all LS d st) = file_records (Transaction_layout LS) st d TRAN_FILE \<and>
         length (cats (load_all LS d st)) \<le> 1024 \<and>
         length (budgets (load_all LS d st)) \<le> 1024"
  using assms by (simp add: load_all_cats load_all_txns load_all_budgets)

lemma sizeof_sample_Category: "sizeof sample_Category_layout = 68"
  by (simp add: sample_Category_layout_def)

lemma length_sample_Category_image: "length (to_bytes sample_Category_layout c) = 68"
  by (simp add: sample_Category_layout_def le_bytes_def str_bytes_def)

lemma length_sample_Category_array:
  "length (array_bytes sample_Category_layout xs) = length xs * 68"
  by (induction xs) (simp_all add: array_bytes_def length_sample_Category_image)

theorem load_all_caps_witness:
  "cats initial_stores = [] \<and> txns initial_stores = [] \<and> budgets initial_stores = [] \<and>
   length (cats (load_all sample_layouts full_disk initial_stores)) = 1024 \<and>
   length (txns (load_all sample_layouts full_disk initial_stores)) = 1025 \<and>
   budgets (load_all sample_layouts full_disk initial_stores) = []"
proof -
  have e: "cats initial_stores = []" "txns initial_stores = []" "budgets initial_stores = []"
    by (simp_all add: initial_stores_def)
  have lc: "length (file_records sample_Category_layout initial_stores full_disk CAT_FILE) = 1025"
    by (simp add: length_file_records full_disk_def sample_Category_layout_def)
  have lt: "length (file_records sample_Transaction_layout initial_stores full_disk TRAN_FILE) = 1025"
    using paths_distinct
    by (auto simp: length_file_records full_disk_def sample_Transaction_layout_def)
  have lb: "file_records sample_BudgetEntry_layout initial_stores full_disk BUD_FILE = []"
    using paths_distinct by (simp add: file_records_def full_disk_def)
  show ?thesis
    using load_all_caps [OF e, of sample_layouts full_disk] e lc lt lb
    by (simp add: sample_layouts_def)
qed

subsection \<open>Saving and loading back\<close>

lemma save_binary_file_writable:
  "writable (save_binary_file st d path buf count sz) = writable d"
  by (simp add: save_binary_file_def)

lemma save_binary_file_contents:
  "contents (save_binary_file st d path buf count sz) p =
     (if writable d path \<and> p = path then Some (obfuscate_buffer st (take (count * sz) buf))
      else contents d p)"
  by (simp add: save_binary_file_def)

lemma save_all_contents_cats:
  assumes "writable d CAT_FILE"
  shows "contents (save_all LS st d) CAT_FILE =
           (if cats st \<noteq> []
            then Some (obfuscate_buffer st (take (length (cats st) * sizeof (Category_layout LS))
                         (array_bytes (Category_layout LS) (cats st))))
            else contents d CAT_FILE)"
  using assms paths_distinct
  by (simp add: save_all_def Let_def save_binary_file_contents save_binary_file_writable)

lemma save_all_contents_txns:
  assumes "writable d TRAN_FILE"
  shows "contents (save_all LS st d) TRAN_FILE =
           (if txns st \<noteq> []
            then Some (obfuscate_buffer st (take (length (txns st) * sizeof (Transaction_layout LS))
                         (array_bytes (Transaction_layout LS) (txns st))))
            else contents d TRAN_FILE)"
  using assms paths_distinct
  by (simp add: save_all_def Let_def save_binary_file_contents save_binary_file_writable)

lemma save_all_contents_budgets:
  assumes "writable d BUD_FILE"
  shows "contents (save_all LS st d) BUD_FILE =
           (if budgets st \<noteq> []
            then Some (obfuscate_buffer st (take (length (budgets st) * sizeof (BudgetEntry_layout LS))
                         (array_bytes (BudgetEntry_layout LS) (budgets st))))
            else contents d BUD_FILE)"
  using assms paths_distinct
  by (simp add: save_all_def Let_def save_binary_file_contents save_binary_file_writable)

lemma save_all_contents_kept:
  "cats st = [] \<Longrightarrow> contents (save_all LS st d) CAT_FILE = contents d CAT_FILE"
  "txns st = [] \<Longrightarrow> contents (save_all LS st d) TRAN_FILE = contents d TRAN_FILE"
  "budgets st = [] \<Longrightarrow> contents (save_all LS st d) BUD_FILE = contents d BUD_FILE"
  using paths_distinct
  by (simp_all add: save_all_def Let_def save_binary_file_contents save_binary_file_writable)

lemma fresh_stores_simps:
  "cats (fresh_stores st) = []" "txns (fresh_stores st) = []" "budgets (fresh_stores st) = []"
  "obfuscate_enabled (fresh_stores st) = obfuscate_enabled st"
  "obf_key (fresh_stores st) = obf_key st"
  by (simp_all add: fresh_stores_def initial_stores_def)

lemma file_records_saved:
  assumes c: "contents d path = Some (obfuscate_buffer st (take (length xs * sizeof L) (array_bytes L xs)))"
    and fit: "list_all (fits L) xs" and sz: "0 < sizeof L"
  shows "file_records L (fresh_stores st) d path = xs"
proof -
  have len: "length (array_bytes L xs) = length xs * sizeof L"
    using fit by (rule length_array_bytes)
  then have whole: "take (length xs * sizeof L) (array_bytes L xs) = array_bytes L xs" by simp
  have "obfuscate_buffer (fresh_stores st) (obfuscate_buffer st (array_bytes L xs)) =
        obfuscate_buffer st (obfuscate_buffer st (array_bytes L xs))"
    by (rule obfuscate_buffer_cong_settings) (simp_all add: fresh_stores_simps)
  then have unobf: "obfuscate_buffer (fresh_stores st) (obfuscate_buffer st (array_bytes L xs)) =
        array_bytes L xs"
    by (simp add: obfuscate_buffer_twice)
  have "length (obfuscate_buffer st (array_bytes L xs)) div sizeof L = length xs"
    using sz by (simp add: length_obfuscate_buffer len)
  then show ?thesis
    using c fit by (simp add: file_records_def whole unobf array_of_bytes_array_bytes)
qed

text \<open>
  Claim C2, as amended: for every state of the stores and every obfuscation setting used
  for both the save and the load, saving all stores and loading them into empty stores
  restores each of the three stores on its own terms, whatever happens to the other two.
  The category store and the budget store are restored exactly when they hold at most
  1024 records, the transaction store for any number of records, provided the store is
  not empty and its file can be written, or the store is empty and the disk holds no
  file for it. (\<open>save_all\<close> writes no file for an empty store; what then happens to a
  file already on the disk is not part of the amended claim.) The layout of a store is
  assumed to have a positive size and to hold the records of that store.
\<close>

theorem save_all_load_all_roundtrip:
  "(0 < sizeof (Category_layout LS) \<and> list_all (fits (Category_layout LS)) (cats st) \<and>
    length (cats st) \<le> 1024 \<and>
    (if cats st = [] then contents d CAT_FILE = None else writable d CAT_FILE) \<longrightarrow>
      cats (load_all LS (save_all LS st d) (fresh_stores st)) = cats st) \<and>
   (0 < sizeof (Transaction_layout LS) \<and> list_all (fits (Transaction_layout LS)) (txns st) \<and>
    (if txns st = [] then contents d TRAN_FILE = None else writable d TRAN_FILE) \<longrightarrow>
      txns (load_all LS (save_all LS st d) (fresh_stores st)) = txns st) \<and>
   (0 < sizeof (BudgetEntry_layout LS) \<and> list_all (fits (BudgetEntry_layout LS)) (budgets st) \<and>
    length (budgets st) \<le> 1024 \<and>
    (if budgets st = [] then contents d BUD_FILE = None else writable d BUD_FILE) \<longrightarrow>
      budgets (load_all LS (save_all LS st d) (fresh_stores st)) = budgets st)"
proof (intro conjI impI)
  let ?d = "save_all LS st d" and ?s0 = "fresh_stores st"
  {
    assume h: "0 < sizeof (Category_layout LS) \<and> list_all (fits (Category_layout LS)) (cats st) \<and>
      length (cats st) \<le> 1024 \<and>
      (if cats st = [] then contents d CAT_FILE = None else writable d CAT_FILE)"
    have rc: "file_records (Category_layout LS) ?s0 ?d CAT_FILE = cats st"
    proof (cases "cats st = []")
      case True
      with h show ?thesis by (simp add: file_records_def save_all_contents_kept)
    next
      case False
      with h show ?thesis
        by (intro file_records_saved) (simp_all add: save_all_contents_cats)
    qed
    with h show "cats (load_all LS ?d ?s0) = cats st"
      by (simp add: load_all_cats fresh_stores_simps)
  }
  {
    assume h: "0 < sizeof (Transaction_layout LS) \<and>
      list_all (fits (Transaction_layout LS)) (txns st) \<and>
      (if txns st = [] then contents d TRAN_FILE = None else writable d TRAN_FILE)"
    have rt: "file_records (Transaction_layout LS) ?s0 ?d TRAN_FILE = txns st"
    proof (cases "txns st = []")
      case True
      with h show ?thesis by (simp add: file_records_def save_all_contents_kept)
    next
      case False
      with h show ?thesis
        by (intro file_records_saved) (simp_all add: save_all_contents_txns)
    qed
    then show "txns (load_all LS ?d ?s0) = txns st"
      by (simp add: load_all_txns fresh_stores_simps)
  }
  {
    assume h: "0 < sizeof (BudgetEntry_layout LS) \<and>
      list_all (fits (BudgetEntry_layout LS)) (budgets st) \<and> length (budgets st) \<le> 1024 \<and>
      (if budgets st = [] then contents d BUD_FILE = None else writable d BUD_FILE)"
    have rb: "file_records (BudgetEntry_layout LS) ?s0 ?d BUD_FILE = budgets st"
    proof (cases "budgets st = []")
      case True
      with h show ?thesis by (simp add: file_records_def save_all_contents_kept)
    next
      case False
      with h show ?thesis
        by (intro file_records_saved) (simp_all add: save_all_contents_budgets)
    qed
    with h show "budgets (load_all LS ?d ?s0) = budgets st"
      by (simp add: load_all_budgets fresh_stores_simps)
  }
qed

text \<open>
  The claim as stated, for every state, fails for more than 1024 categories and for more
  than 1024 budget entries: \<open>load_all\<close> reads either file through a buffer of 1024
  records and drops the rest.
\<close>

lemma sizeof_sample_BudgetEntry: "sizeof sample_BudgetEntry_layout = 24"
  by (simp add: sample_BudgetEntry_layout_def)

lemma length_sample_BudgetEntry_image: "length (to_bytes sample_BudgetEntry_layout b) = 24"
  by (simp add: sample_BudgetEntry_layout_def le_bytes_def)

lemma length_sample_BudgetEntry_array:
  "length (array_bytes sample_BudgetEntry_layout xs) = length xs * 24"
  by (induction xs) (simp_all add: array_bytes_def length_sample_BudgetEntry_image)

theorem roundtrip_drops_record_1025:
  "length (cats many_categories) = 1025 \<and>
   length (cats (load_all sample_layouts (save_all sample_layouts many_categories empty_disk)
                  (fresh_stores many_categories))) = 1024 \<and>
   length (budgets many_budgets) = 1025 \<and>
   length (budgets (load_all sample_layouts (save_all sample_layouts many_budgets empty_disk)
                     (fresh_stores many_budgets))) = 1024"
proof -
  let ?xs = "cats many_categories" and ?bs = "budgets many_budgets"
  have wr: "writable empty_disk CAT_FILE" "writable empty_disk BUD_FILE"
    by (simp_all add: empty_disk_def)
  have n: "length ?xs = 1025" by (simp add: many_categories_def initial_stores_def)
  then have ne: "?xs \<noteq> []" by auto
  have "length (array_bytes sample_Category_layout ?xs) = length ?xs * 68"
    by (rule length_sample_Category_array)
  with n have len: "length (array_bytes sample_Category_layout ?xs) = 1025 * 68" by simp
  have "contents (save_all sample_layouts many_categories empty_disk) CAT_FILE =
        Some (obfuscate_buffer many_categories
               (take (1025 * 68) (array_bytes sample_Category_layout ?xs)))"
    using ne n
    by (simp add: save_all_contents_cats [OF wr(1)] sample_layouts_def sizeof_sample_Category)
  then have "length (file_records sample_Category_layout (fresh_stores many_categories)
                (save_all sample_layouts many_categories empty_disk) CAT_FILE) = 1025"
    by (simp add: length_file_records length_obfuscate_buffer len sizeof_sample_Category)
  then have c: "length (cats (load_all sample_layouts
                  (save_all sample_layouts many_categories empty_disk)
                  (fresh_stores many_categories))) = 1024"
    by (simp add: load_all_cats fresh_stores_simps sample_layouts_def)
  have m: "length ?bs = 1025" by (simp add: many_budgets_def initial_stores_def)
  then have nb: "?bs \<noteq> []" by auto
  have "length (array_bytes sample_BudgetEntry_layout ?bs) = length ?bs * 24"
    by (rule length_sample_BudgetEntry_array)
  with m have lenb: "length (array_bytes sample_BudgetEntry_layout ?bs) = 1025 * 24" by simp
  have "contents (save_all sample_layouts many_budgets empty_disk) BUD_FILE =
        Some (obfuscate_buffer many_budgets
               (take (1025 * 24) (array_bytes sample_BudgetEntry_layout ?bs)))"
    using nb m
    by (simp add: save_all_contents_budgets [OF wr(2)] sample_layouts_def
        sizeof_sample_BudgetEntry)
  then have "length (file_records sample_BudgetEntry_layout (fresh_stores many_budgets)
                (save_all sample_layouts many_budgets empty_disk) BUD_FILE) = 1025"
    by (simp add: length_file_records length_obfuscate_buffer lenb sizeof_sample_BudgetEntry)
  then have b: "length (budgets (load_all sample_layouts
                  (save_all sample_layouts many_budgets empty_disk)
                  (fresh_stores many_budgets))) = 1024"
    by (simp add: load_all_budgets fresh_stores_simps sample_layouts_def)
  from n c m b show ?thesis by simp
qed

text \<open>Saving empty stores writes nothing, so files already on the disk stay as they are.\<close>

lemma save_all_empty_stores:
  "cats st = [] \<Longrightarrow> txns st = [] \<Longrightarrow> budgets st = [] \<Longrightarrow> save_all LS st d = d"
  by (simp add: save_all_def)

lemmas layout_simps =
  fits_def le_bytes_def le_int_def str_bytes_def bytes_str_def upt_rec char_of_def bit_Suc_0_iff

text \<open>A store with a record in each collection, saved with obfuscation on a disk without
  files; and a store without budgets saved on a disk that holds an old budget file: its
  categories and transactions are restored all the same.\<close>

theorem save_all_load_all_roundtrip_witness:
  "cats (load_all sample_layouts (save_all sample_layouts budget_store empty_disk)
          (fresh_stores budget_store)) = [food] \<and>
   txns (load_all sample_layouts (save_all sample_layouts budget_store empty_disk)
          (fresh_stores budget_store)) = [lunch] \<and>
   budgets (load_all sample_layouts (save_all sample_layouts budget_store empty_disk)
          (fresh_stores budget_store)) = [march_budget] \<and>
   obfuscate_enabled budget_store \<and> obf_key budget_store = 0x5A \<and>
   contents old_budget_disk BUD_FILE \<noteq> None \<and> budgets food_store = [] \<and>
   cats (load_all sample_layouts (save_all sample_layouts food_store old_budget_disk)
          (fresh_stores food_store)) = [food] \<and>
   txns (load_all sample_layouts (save_all sample_layouts food_store old_budget_disk)
          (fresh_stores food_store)) = [lunch]"
proof -
  have st: "cats budget_store = [food]" "txns budget_store = [lunch]"
    "budgets budget_store = [march_budget]"
    by (simp_all add: budget_store_def food_store_def)
  have st2: "cats food_store = [food]" "txns food_store = [lunch]" "budgets food_store = []"
    by (simp_all add: food_store_def initial_stores_def)
  have f1: "fits sample_Category_layout food"
    by (simp add: sample_Category_layout_def food_def layout_simps)
  have f2: "fits sample_Transaction_layout lunch"
    by (simp add: sample_Transaction_layout_def lunch_def layout_simps)
  have f3: "fits sample_BudgetEntry_layout march_budget"
    by (simp add: sample_BudgetEntry_layout_def march_budget_def layout_simps)
  have sz: "0 < sizeof (Category_layout sample_layouts)"
    "0 < sizeof (Transaction_layout sample_layouts)"
    "0 < sizeof (BudgetEntry_layout sample_layouts)"
    by (simp_all add: sample_layouts_def sample_Category_layout_def
        sample_Transaction_layout_def sample_BudgetEntry_layout_def)
  have fit: "list_all (fits (Category_layout sample_layouts)) [food]"
    "list_all (fits (Transaction_layout sample_layouts)) [lunch]"
    "list_all (fits (BudgetEntry_layout sample_layouts)) [march_budget]"
    using f1 f2 f3 by (simp_all add: sample_layouts_def)
  have wr: "writable empty_disk CAT_FILE" "writable empty_disk TRAN_FILE"
    "writable empty_disk BUD_FILE" "writable old_budget_disk CAT_FILE"
    "writable old_budget_disk TRAN_FILE"
    by (simp_all add: empty_disk_def old_budget_disk_def)
  have old: "contents old_budget_disk BUD_FILE \<noteq> None"
    by (simp add: old_budget_disk_def)
  have "obfuscate_enabled budget_store \<and> obf_key budget_store = 0x5A"
    by (simp add: budget_store_def)
  then show ?thesis
    using save_all_load_all_roundtrip [of sample_layouts budget_store empty_disk]
      save_all_load_all_roundtrip [of sample_layouts food_store old_budget_disk]
      sz fit wr old
    by (simp add: st st2)
qed

section \<open>Adding a transaction\<close>

lemma add_category_frame:
  "add_category st inp = (m, st', r) \<Longrightarrow>
   txns st' = txns st \<and> txns_next_id st' = txns_next_id st \<and> budgets st' = budgets st \<and>
   obfuscate_enabled st' = obfuscate_enabled st \<and> obf_key st' = obf_key st"
  by (auto simp: add_category_def split: prod.splits if_splits)

lemma add_transaction_finish_failed:
  "add_transaction_finish t st inp = (m, st', r) \<Longrightarrow> m \<noteq> Transaction_added \<Longrightarrow> st' = st"
  by (auto simp: add_transaction_finish_def split: prod.splits if_splits)

text \<open>
  Claim C4, as amended: when \<open>add_transaction\<close> ends in any way other than adding the
  transaction (bad date, amount not positive, no category, category id that does not
  resolve), the transaction collection and the budgets are exactly as before the call.
  The category collection and the category id counter are exactly as before as well,
  except in one case: no category existed before the call and the add failed on the
  category id. The date and the amount are checked first; only then, with no category in
  the store, the add-category dialogue runs, and in that one case it has created exactly
  one category and advanced the category id counter by one. (The transaction id counter
  is not covered.)
\<close>

theorem add_transaction_failed_frame:
  assumes run: "add_transaction today st inp = (m, st', r)"
    and failed: "m \<noteq> Transaction_added"
  shows "txns st' = txns st \<and> budgets st' = budgets st \<and>
         (m \<noteq> Invalid_category \<or> cats st \<noteq> [] \<longrightarrow>
            cats st' = cats st \<and> cats_next_id st' = cats_next_id st) \<and>
         (m = Invalid_category \<and> cats st = [] \<longrightarrow>
            length (cats st') = 1 \<and> cats_next_id st' = cats_next_id st + 1)"
proof -
  let ?st1 = "st\<lparr>txns_next_id := txns_next_id st + 1\<rparr>"
  obtain d0 r1 where rl: "read_line 11 inp = (d0, r1)" by (cases "read_line 11 inp")
  let ?d = "if d0 = [] then today else d0"
  show ?thesis
  proof (cases "parse_date ?d = None")
    case True
    then have "add_transaction today st inp = (Invalid_date_format, ?st1, r1)"
      by (simp add: add_transaction_def Let_def rl)
    with run show ?thesis by auto
  next
    case dateok: False
    obtain tp r2 where ri: "read_int r1 = (tp, r2)" by (cases "read_int r1")
    obtain a r3 where rd: "read_double r2 = (a, r3)" by (cases "read_double r2")
    show ?thesis
    proof (cases "a \<le> 0")
      case True
      then have "add_transaction today st inp = (Amount_must_be_positive, ?st1, r3)"
        by (simp add: add_transaction_def Let_def rl ri rd dateok)
      with run show ?thesis by auto
    next
      case pos: False
      let ?t = "\<lparr>txn_id = txns_next_id st, date = ?d, amount = a, category_id = 0,
                 txn_type = (if tp \<noteq> 1 then TYPE_EXPENSE else TYPE_INCOME),
                 txn_note = []\<rparr>"
      show ?thesis
      proof (cases "cats st = []")
        case False
        then have "add_transaction today st inp = add_transaction_finish ?t ?st1 r3"
          by (simp add: add_transaction_def Let_def rl ri rd dateok pos)
        with run have "add_transaction_finish ?t ?st1 r3 = (m, st', r)" by simp
        from add_transaction_finish_failed [OF this failed] False show ?thesis by simp
      next
        case True
        obtain m2 st2 r4 where ac: "add_category ?st1 r3 = (m2, st2, r4)"
          by (cases "add_category ?st1 r3") auto
        from add_category_frame [OF ac]
        have fr: "txns st2 = txns st" "budgets st2 = budgets st" by simp_all
        show ?thesis
        proof (cases "cats st2 = []")
          case e2: True
          with True have "add_transaction today st inp = (No_categories_abort, st2, r4)"
            by (simp add: add_transaction_def Let_def rl ri rd dateok pos ac)
          with run have eq: "st' = st2" "m = No_categories_abort" by simp_all
          from ac e2 True have "cats_next_id st2 = cats_next_id st"
            by (auto simp: add_category_def split: prod.splits if_splits)
          with fr True e2 eq show ?thesis by simp
        next
          case ne2: False
          with True have "add_transaction today st inp = add_transaction_finish ?t st2 r4"
            by (simp add: add_transaction_def Let_def rl ri rd dateok pos ac)
          with run have fin: "add_transaction_finish ?t st2 r4 = (m, st', r)" by simp
          from add_transaction_finish_failed [OF this failed] have eq: "st' = st2" .
          from fin failed have inv: "m = Invalid_category"
            by (auto simp: add_transaction_finish_def split: prod.splits if_splits)
          from ac ne2 True have "length (cats st2) = 1" "cats_next_id st2 = cats_next_id st + 1"
            by (auto simp: add_category_def split: prod.splits if_splits)
          with fr True eq inv show ?thesis by simp
        qed
      qed
    qed
  qed
qed

text \<open>
  The claim as stated fails: with no category in the store, the add asks for one and
  creates it, and the category id entered afterwards does not resolve. The add aborts,
  and the new category and both advanced counters stay.
\<close>

theorem add_transaction_failed_keeps_new_category:
  "add_transaction ''2024-01-01'' initial_stores (lines [[], ''0'', ''5'', ''Food'', ''99'']) =
     (Invalid_category,
      initial_stores\<lparr>txns_next_id := 2, cats := [food], cats_next_id := 2\<rparr>, []) \<and>
   cats initial_stores = [] \<and> cats_next_id initial_stores = 1 \<and>
   txns_next_id initial_stores = 1"
  by (simp add: add_transaction_def add_transaction_finish_def add_category_def input_simps
      scan_simps find_category_by_id_def initial_stores_def food_def)

text \<open>Two failed adds: a non-positive amount with no category in the store, and a
  category id that does not resolve with one category in the store. Both leave the
  categories and the category id counter as they were.\<close>

theorem add_transaction_failed_frame_witness:
  "add_transaction ''2024-01-01'' initial_stores (lines [[], ''1'', ''0'']) =
     (Amount_must_be_positive, initial_stores\<lparr>txns_next_id := 2\<rparr>, []) \<and>
   cats initial_stores = [] \<and>
   txns (initial_stores\<lparr>txns_next_id := 2\<rparr>) = txns initial_stores \<and>
   budgets (initial_stores\<lparr>txns_next_id := 2\<rparr>) = budgets initial_stores \<and>
   cats (initial_stores\<lparr>txns_next_id := 2\<rparr>) = cats initial_stores \<and>
   cats_next_id (initial_stores\<lparr>txns_next_id := 2\<rparr>) = cats_next_id initial_stores \<and>
   add_transaction ''2024-01-01'' food_store (lines [[], ''0'', ''5'', ''99'']) =
     (Invalid_category, food_store\<lparr>txns_next_id := 3\<rparr>, []) \<and>
   cats food_store = [food] \<and>
   txns (food_store\<lparr>txns_next_id := 3\<rparr>) = txns food_store \<and>
   budgets (food_store\<lparr>txns_next_id := 3\<rparr>) = budgets food_store \<and>
   cats (food_store\<lparr>txns_next_id := 3\<rparr>) = cats food_store \<and>
   cats_next_id (food_store\<lparr>txns_next_id := 3\<rparr>) = cats_next_id food_store"
proof -
  have run1: "add_transaction ''2024-01-01'' initial_stores (lines [[], ''1'', ''0'']) =
             (Amount_must_be_positive, initial_stores\<lparr>txns_next_id := 2\<rparr>, [])"
    by (simp add: add_transaction_def input_simps scan_simps initial_stores_def)
  have run2: "add_transaction ''2024-01-01'' food_store (lines [[], ''0'', ''5'', ''99'']) =
             (Invalid_category, food_store\<lparr>txns_next_id := 3\<rparr>, [])"
    by (simp add: add_transaction_def add_transaction_finish_def input_simps scan_simps
        find_category_by_id_def food_store_def initial_stores_def food_def)
  have c: "cats initial_stores = []" "cats food_store = [food]"
    by (simp_all add: initial_stores_def food_store_def)
  from add_transaction_failed_frame [OF run1] add_transaction_failed_frame [OF run2] c
  have "txns (initial_stores\<lparr>txns_next_id := 2\<rparr>) = txns initial_stores \<and>
        budgets (initial_stores\<lparr>txns_next_id := 2\<rparr>) = budgets initial_stores \<and>
        cats (initial_stores\<lparr>txns_next_id := 2\<rparr>) = cats initial_stores \<and>
        cats_next_id (initial_stores\<lparr>txns_next_id := 2\<rparr>) = cats_next_id initial_stores \<and>
        txns (food_store\<lparr>txns_next_id := 3\<rparr>) = txns food_store \<and>
        budgets (food_store\<lparr>txns_next_id := 3\<rparr>) = budgets food_store \<and>
        cats (food_store\<lparr>txns_next_id := 3\<rparr>) = cats food_store \<and>
        cats_next_id (food_store\<lparr>txns_next_id := 3\<rparr>) = cats_next_id food_store"
    by simp
  with run1 run2 c show ?thesis by simp
qed

section \<open>Positive amounts at creation\<close>

text \<open>The interactive path does keep the amount invariant: a transaction that
  \<open>add_transaction\<close> appends has a positive amount, a date the validator accepts and a
  category id that resolves.\<close>

lemma add_transaction_added:
  assumes run: "add_transaction today st inp = (Transaction_added, st', r)"
  shows "\<exists>t. txns st' = txns st @ [t] \<and> 0 < amount t \<and> parse_date (date t) \<noteq> None \<and>
             txn_id t = txns_next_id st \<and> find_category_by_id st' (category_id t)"
proof -
  let ?st1 = "st\<lparr>txns_next_id := txns_next_id st + 1\<rparr>"
  obtain d0 r1 where rl: "read_line 11 inp = (d0, r1)" by (cases "read_line 11 inp")
  let ?d = "if d0 = [] then today else d0"
  have dateok: "parse_date ?d \<noteq> None"
  proof
    assume "parse_date ?d = None"
    then have "add_transaction today st inp = (Invalid_date_format, ?st1, r1)"
      by (simp add: add_transaction_def Let_def rl)
    with run show False by simp
  qed
  obtain tp r2 where ri: "read_int r1 = (tp, r2)" by (cases "read_int r1")
  obtain a r3 where rd: "read_double r2 = (a, r3)" by (cases "read_double r2")
  have pos: "\<not> a \<le> 0"
  proof
    assume "a \<le> 0"
    then have "add_transaction today st inp = (Amount_must_be_positive, ?st1, r3)"
      by (simp add: add_transaction_def Let_def rl ri rd dateok)
    with run show False by simp
  qed
  let ?t = "\<lparr>txn_id = txns_next_id st, date = ?d, amount = a, category_id = 0,
             txn_type = (if tp \<noteq> 1 then TYPE_EXPENSE else TYPE_INCOME),
             txn_note = []\<rparr>"
  have "\<exists>s2 r4. txns s2 = txns st \<and> add_transaction_finish ?t s2 r4 = (Transaction_added, st', r)"
  proof (cases "cats st = []")
    case False
    then have "add_transaction today st inp = add_transaction_finish ?t ?st1 r3"
      by (simp add: add_transaction_def Let_def rl ri rd dateok pos)
    with run have "add_transaction_finish ?t ?st1 r3 = (Transaction_added, st', r)" by simp
    moreover have "txns ?st1 = txns st" by simp
    ultimately show ?thesis by blast
  next
    case True
    obtain m2 st2 r4 where ac: "add_category ?st1 r3 = (m2, st2, r4)"
      by (cases "add_category ?st1 r3") auto
    from add_category_frame [OF ac] have fr: "txns st2 = txns st" by simp
    show ?thesis
    proof (cases "cats st2 = []")
      case e2: True
      with True have "add_transaction today st inp = (No_categories_abort, st2, r4)"
        by (simp add: add_transaction_def Let_def rl ri rd dateok pos ac)
      with run show ?thesis by simp
    next
      case ne2: False
      with True have "add_transaction today st inp = add_transaction_finish ?t st2 r4"
        by (simp add: add_transaction_def Let_def rl ri rd dateok pos ac)
      with run have "add_transaction_finish ?t st2 r4 = (Transaction_added, st', r)" by simp
      with fr show ?thesis by blast
    qed
  qed
  then obtain s2 r4 where s2: "txns s2 = txns st"
    and fin: "add_transaction_finish ?t s2 r4 = (Transaction_added, st', r)" by blast
  from fin obtain cid n where cid: "find_category_by_id s2 cid"
    and tx: "txns st' = txns s2 @ [?t\<lparr>category_id := cid, txn_note := n\<rparr>]"
    and cs: "cats st' = cats s2"
    by (auto simp: add_transaction_finish_def split: prod.splits if_splits)
  from cid cs have "find_category_by_id st' cid" by (simp add: find_category_by_id_def)
  with tx s2 pos dateok show ?thesis by auto
qed

text \<open>
  Claim C8: every transaction has an amount strictly greater than zero when it is created,
  by the interactive add or by CSV import.

  \<open>add_transaction\<close> rejects an amount that is not positive (lemma
  \<open>add_transaction_added\<close>); \<open>import_csv\<close> has no such test and stores whatever
  \<open>atof\<close> returns. The line \<open>2024-03-15,0,-5,Food,x\<close> creates a
  transaction of amount \<open>-5\<close>.
\<close>

theorem import_csv_takes_negative_amount:
  "import_csv (Some (lines [''date,type,amount,category,note'',
                            ''2024-03-15,0,-5,Food,x''])) initial_stores =
     initial_stores\<lparr>txns := [\<lparr>txn_id = 1, date = ''2024-03-15'', amount = - 5,
                               category_id = 1, txn_type = TYPE_EXPENSE, txn_note = ''x''\<rparr>],
                     txns_next_id := 2, cats := [food], cats_next_id := 2\<rparr>"
  by (simp add: import_csv_def import_loop.simps import_line_def fgets_def strtok_def
      scan_simps is_eol_def atoi_def atof_def initial_stores_def food_def)

section \<open>Editing a transaction\<close>

text \<open>
  Claim C9: an edit of an existing transaction in which every field input is blank or
  fails its validation leaves date, type, amount, category and note as they were.

  The type does not survive a blank input: \<open>read_int\<close> returns 0 for an empty line, and
  \<open>edit_transaction\<close> takes 0 for the type Expense. Editing the Income transaction 1 with
  five empty lines turns it into an Expense.
\<close>

theorem edit_transaction_blank_resets_type:
  "edit_transaction (food_store\<lparr>txns := [lunch\<lparr>txn_type := TYPE_INCOME\<rparr>]\<rparr>)
     (lines [''1'', [], [], [], [], []]) =
   (Updated, food_store\<lparr>txns := [lunch\<lparr>txn_type := TYPE_EXPENSE\<rparr>]\<rparr>, [])"
  by (simp add: edit_transaction_def input_simps scan_simps find_txn_index_by_id_def
      food_store_def lunch_def initial_stores_def food_def)

section \<open>Removing a category\<close>

lemma index_where_None: "index_where P xs = None \<longleftrightarrow> \<not> list_ex P xs"
  by (induction xs) auto

lemma index_where_Some:
  "index_where P xs = Some k \<Longrightarrow> k < length xs \<and> P (xs ! k)"
proof (induction xs arbitrary: k)
  case Nil
  then show ?case by simp
next
  case (Cons x xs)
  show ?case
  proof (cases "P x")
    case True
    with Cons.prems show ?thesis by simp
  next
    case False
    with Cons.prems obtain j where "index_where P xs = Some j" "k = Suc j" by auto
    with Cons.IH [of j] show ?thesis by simp
  qed
qed

lemma swap_remove_drops_id:
  assumes d: "distinct (map f xs)" and k: "k < length xs"
  shows "f (xs ! k) \<notin> f ` set (butlast (xs[k := last xs]))"
proof
  let ?ys = "butlast (xs[k := last xs])"
  assume "f (xs ! k) \<in> f ` set ?ys"
  then obtain j where j: "j < length ?ys" and e: "f (?ys ! j) = f (xs ! k)"
    by (auto simp: in_set_conv_nth)
  from j have jl: "j < length xs - 1" by simp
  from k have ne: "xs \<noteq> []" by auto
  have inj: "\<And>a b. a < length xs \<Longrightarrow> b < length xs \<Longrightarrow> f (xs ! a) = f (xs ! b) \<Longrightarrow> a = b"
    using d by (metis distinct_conv_nth length_map nth_map)
  show False
  proof (cases "j = k")
    case True
    with jl k have "?ys ! j = last xs" by (simp add: nth_butlast)
    also have "\<dots> = xs ! (length xs - 1)" using ne by (rule last_conv_nth)
    finally have "f (xs ! (length xs - 1)) = f (xs ! k)" using e by simp
    with inj [of "length xs - 1" k] k have "length xs - 1 = k" by simp
    with True jl show False by simp
  next
    case False
    with jl have "?ys ! j = xs ! j" by (simp add: nth_butlast)
    with e have "f (xs ! j) = f (xs ! k)" by simp
    with inj [of j k] jl k have "j = k" by simp
    with False show False by simp
  qed
qed

subsection \<open>Category ids stay unique\<close>

text \<open>The stores start with unique category ids below the counter, and every operation
  that touches the categories keeps them so.\<close>

lemma swap_remove_distinct:
  assumes d: "distinct (map f xs)" and k: "k < length xs"
  shows "distinct (map f (butlast (xs[k := last xs])))"
proof (cases "k = length xs - 1")
  case True
  from k have "xs \<noteq> []" by auto
  with True have "xs ! k = last xs" by (simp add: last_conv_nth)
  then have "xs[k := last xs] = xs" by (metis list_update_id)
  with d show ?thesis by (simp add: map_butlast distinct_butlast)
next
  case False
  from k have ne: "xs \<noteq> []" by auto
  then have xs: "xs = butlast xs @ [last xs]" by simp
  from d have "distinct (map f (butlast xs @ [last xs]))" using xs by simp
  then have db: "distinct (map f (butlast xs))"
    and nl: "f (last xs) \<notin> set (map f (butlast xs))" by simp_all
  from False have "butlast (xs[k := last xs]) = (butlast xs)[k := last xs]"
    by (simp add: butlast_list_update)
  then have "map f (butlast (xs[k := last xs])) = (map f (butlast xs))[k := f (last xs)]"
    by (simp add: map_update)
  moreover have "distinct ((map f (butlast xs))[k := f (last xs)])"
    using db nl by (intro distinct_list_update) auto
  ultimately show ?thesis by simp
qed

lemma swap_remove_subset: "set (butlast (xs[k := last xs])) \<subseteq> set xs"
proof (cases "xs = []")
  case True
  then show ?thesis by simp
next
  case False
  have "set (butlast (xs[k := last xs])) \<subseteq> set (xs[k := last xs])"
    by (auto dest: in_set_butlastD)
  also have "\<dots> \<subseteq> insert (last xs) (set xs)" by (rule set_update_subset_insert)
  also have "\<dots> = set xs" using False by (simp add: insert_absorb)
  finally show ?thesis .
qed

lemma initial_category_ids_ok: "category_ids_ok initial_stores"
  by (simp add: category_ids_ok_def unique_category_ids_def initial_stores_def)

lemma add_category_ids_ok:
  assumes "category_ids_ok st"
  shows "category_ids_ok (fst (snd (add_category st inp)))"
  using assms
  by (auto simp: add_category_def category_ids_ok_def unique_category_ids_def list_all_iff
      split: prod.splits)

lemma remove_category_ids_ok:
  assumes "category_ids_ok st"
  shows "category_ids_ok (fst (snd (remove_category st inp)))"
proof -
  obtain i r where rd: "read_int inp = (i, r)" by (cases "read_int inp")
  show ?thesis
  proof (cases "find_category_index_by_id st i")
    case None
    with assms rd show ?thesis by (simp add: remove_category_def)
  next
    case (Some k)
    then have kl: "k < length (cats st)"
      using index_where_Some [of "\<lambda>c. cat_id c = i" "cats st" k]
      by (simp add: find_category_index_by_id_def)
    from assms kl have "distinct (map cat_id (butlast ((cats st)[k := last (cats st)])))"
      unfolding category_ids_ok_def unique_category_ids_def
      by (intro swap_remove_distinct) auto
    moreover from assms
    have "list_all (\<lambda>c. cat_id c < cats_next_id st) (butlast ((cats st)[k := last (cats st)]))"
      using swap_remove_subset [of "cats st" k]
      by (auto simp: category_ids_ok_def list_all_iff)
    ultimately show ?thesis
      using assms rd Some
      by (simp add: remove_category_def category_ids_ok_def unique_category_ids_def)
  qed
qed

lemma import_line_ids_ok:
  assumes "category_ids_ok st"
  shows "category_ids_ok (import_line line st)"
  using assms
  by (auto simp: import_line_def Let_def category_ids_ok_def unique_category_ids_def
      list_all_iff split: option.splits prod.splits)

lemma edit_category_ids_ok:
  assumes "category_ids_ok st"
  shows "category_ids_ok (fst (snd (edit_category st inp)))"
proof -
  obtain i r0 where rd: "read_int inp = (i, r0)" by (cases "read_int inp")
  show ?thesis
  proof (cases "find_category_index_by_id st i")
    case None
    with assms rd show ?thesis by (simp add: edit_category_def)
  next
    case (Some k)
    then have kl: "k < length (cats st)"
      using index_where_Some [of "\<lambda>c. cat_id c = i" "cats st" k]
      by (simp add: find_category_index_by_id_def)
    obtain buf r1 where rl: "read_line 64 r0 = (buf, r1)" by (cases "read_line 64 r0")
    let ?xs = "(cats st)[k := (cats st ! k)\<lparr>cat_name := take 63 buf\<rparr>]"
    have "map cat_id ?xs = (map cat_id (cats st))[k := cat_id (cats st ! k)]"
      by (simp add: map_update)
    also have "\<dots> = map cat_id (cats st)"
      using kl by (simp add: list_update_same_conv)
    finally have ids: "map cat_id ?xs = map cat_id (cats st)" .
    have conv: "list_all (\<lambda>c. cat_id c < n) xs \<longleftrightarrow> (\<forall>i\<in>set (map cat_id xs). i < n)"
      for n and xs :: "Category list"
      by (simp add: list_all_iff)
    from assms have "category_ids_ok (st\<lparr>cats := ?xs\<rparr>)"
      by (simp add: category_ids_ok_def unique_category_ids_def conv ids del: set_map)
    with assms rd Some rl show ?thesis by (simp add: edit_category_def)
  qed
qed

lemma import_csv_ids_ok:
  assumes "category_ids_ok st"
  shows "category_ids_ok (import_csv file st)"
proof -
  have "category_ids_ok (import_loop f n s)" if "category_ids_ok s" for f n s
    using that
  proof (induction f n s rule: import_loop.induct)
    case (1 f lineno st)
    show ?case
    proof (cases "fgets 1024 f")
      case None
      with "1.prems" show ?thesis by (simp add: import_loop.simps [of f])
    next
      case (Some p)
      obtain line rest where p: "p = (line, rest)" by (cases p)
      show ?thesis
      proof (cases "lineno + 1 = 1")
        case True
        with "1.IH"(1) [OF Some [unfolded p] refl True "1.prems"] Some p
        show ?thesis by (simp add: import_loop.simps [of f])
      next
        case False
        from "1.prems" have "category_ids_ok (import_line line st)"
          by (rule import_line_ids_ok)
        with "1.IH"(2) [OF Some [unfolded p] refl False] Some p False
        show ?thesis by (simp add: import_loop.simps [of f])
      qed
    qed
  qed
  with assms show ?thesis by (simp add: import_csv_def split: option.splits)
qed

lemma category_ids_ok_cong:
  "cats a = cats b \<Longrightarrow> cats_next_id a = cats_next_id b \<Longrightarrow>
   category_ids_ok a = category_ids_ok b"
  by (simp add: category_ids_ok_def unique_category_ids_def)

lemma add_transaction_finish_cats:
  "cats (fst (snd (add_transaction_finish t st inp))) = cats st"
  "cats_next_id (fst (snd (add_transaction_finish t st inp))) = cats_next_id st"
  by (simp_all add: add_transaction_finish_def split: prod.splits)

lemma add_transaction_ids_ok:
  assumes ok: "category_ids_ok st"
  shows "category_ids_ok (fst (snd (add_transaction today st inp)))"
proof -
  let ?st1 = "st\<lparr>txns_next_id := txns_next_id st + 1\<rparr>"
  have ok1: "category_ids_ok ?st1"
    using ok category_ids_ok_cong [of ?st1 st] by simp
  have fin: "category_ids_ok (fst (snd (add_transaction_finish t s r)))"
    if "category_ids_ok s" for t s r
    using that category_ids_ok_cong [of "fst (snd (add_transaction_finish t s r))" s]
    by (simp add: add_transaction_finish_cats)
  have cat: "category_ids_ok s" if "add_category ?st1 r = (m, s, r')" for r m s r'
    using add_category_ids_ok [OF ok1, of r] that by simp
  show ?thesis
    using ok1 fin
    by (auto simp: add_transaction_def Let_def split: prod.splits dest: cat)
qed

subsection \<open>Removal and references\<close>

text \<open>
  Claim C6: removing an existing category that some transaction refers to fails with the
  referential-integrity condition and changes nothing; removing an existing category that
  no transaction refers to succeeds, and a lookup of the id then finds nothing. Category
  ids are unique, as the data model requires.
\<close>

theorem remove_category_referential:
  assumes rd: "read_int inp = (i, r)" and ex: "find_category_by_id st i"
  shows "(list_ex (\<lambda>t. category_id t = i) (txns st) \<longrightarrow>
            remove_category st inp = (Category_in_use, st, r)) \<and>
         (\<not> list_ex (\<lambda>t. category_id t = i) (txns st) \<longrightarrow> unique_category_ids st \<longrightarrow>
            (\<exists>st'. remove_category st inp = (Deleted, st', r) \<and>
                   \<not> find_category_by_id st' i \<and>
                   find_category_index_by_id st' i = None \<and>
                   txns st' = txns st \<and> budgets st' = budgets st))"
proof -
  from ex obtain k where k: "find_category_index_by_id st i = Some k"
    using index_where_None [of "\<lambda>c. cat_id c = i" "cats st"]
    by (auto simp: find_category_by_id_def find_category_index_by_id_def)
  then have kl: "k < length (cats st)" and ki: "cat_id (cats st ! k) = i"
    using index_where_Some [of "\<lambda>c. cat_id c = i" "cats st" k]
    by (simp_all add: find_category_index_by_id_def)
  have used: "remove_category st inp = (Category_in_use, st, r)"
    if "list_ex (\<lambda>t. category_id t = i) (txns st)"
    using that by (simp add: remove_category_def rd k)
  have unused: "remove_category st inp =
      (Deleted, st\<lparr>cats := butlast ((cats st)[k := last (cats st)])\<rparr>, r)"
    if "\<not> list_ex (\<lambda>t. category_id t = i) (txns st)"
    using that by (simp add: remove_category_def rd k)
  have gone: "\<not> list_ex (\<lambda>c. cat_id c = i) (butlast ((cats st)[k := last (cats st)]))"
    if "unique_category_ids st"
  proof -
    from that kl have "cat_id (cats st ! k) \<notin>
        cat_id ` set (butlast ((cats st)[k := last (cats st)]))"
      unfolding unique_category_ids_def by (rule swap_remove_drops_id)
    with ki show ?thesis by (auto simp: list_ex_iff image_iff)
  qed
  show ?thesis
    using used unused gone
    by (auto simp: find_category_by_id_def find_category_index_by_id_def index_where_None)
qed

theorem remove_category_referential_witness:
  "remove_category two_category_store (lines [''1'']) =
     (Category_in_use, two_category_store, []) \<and>
   remove_category two_category_store (lines [''2'']) =
     (Deleted, two_category_store\<lparr>cats := [food]\<rparr>, []) \<and>
   \<not> find_category_by_id (two_category_store\<lparr>cats := [food]\<rparr>) 2 \<and>
   find_category_by_id two_category_store 1 \<and> find_category_by_id two_category_store 2 \<and>
   unique_category_ids two_category_store"
proof -
  have r1: "read_int (lines [''1'']) = (1, [])" by (simp add: input_simps scan_simps)
  have r2: "read_int (lines [''2'']) = (2, [])" by (simp add: input_simps scan_simps)
  have e1: "find_category_by_id two_category_store 1"
    by (simp add: find_category_by_id_def two_category_store_def food_def)
  have e2: "find_category_by_id two_category_store 2"
    by (simp add: find_category_by_id_def two_category_store_def rent_def)
  have u: "unique_category_ids two_category_store"
    by (simp add: unique_category_ids_def two_category_store_def food_def rent_def)
  have t1: "list_ex (\<lambda>t. category_id t = 1) (txns two_category_store)"
    by (simp add: two_category_store_def food_store_def lunch_def)
  have t2: "\<not> list_ex (\<lambda>t. category_id t = 2) (txns two_category_store)"
    by (simp add: two_category_store_def food_store_def lunch_def)
  have d: "remove_category two_category_store (lines [''2'']) =
     (Deleted, two_category_store\<lparr>cats := [food]\<rparr>, [])"
    by (simp add: remove_category_def r2 find_category_index_by_id_def two_category_store_def
        food_store_def lunch_def food_def rent_def)
  from remove_category_referential [OF r1 e1] remove_category_referential [OF r2 e2]
    t1 t2 u e1 e2 d
  show ?thesis by auto
qed

section \<open>Setting a budget\<close>

lemma filter_key_absent:
  "k \<notin> set (map budget_key bs) \<Longrightarrow> filter (\<lambda>b. budget_key b = k) bs = []"
  by (induction bs) auto

lemma filter_other_absent:
  "k \<notin> set (map budget_key bs) \<Longrightarrow> filter (\<lambda>b. budget_key b \<noteq> k) bs = bs"
  by (induction bs) auto

lemma update_existing_None:
  "update_existing cid y m amt bs = None \<longleftrightarrow> (cid, y, m) \<notin> set (map budget_key bs)"
  by (induction bs) (auto simp: budget_key_def)

lemma update_existing_keys:
  "update_existing cid y m amt bs = Some bs' \<Longrightarrow> map budget_key bs' = map budget_key bs"
proof (induction bs arbitrary: bs')
  case Nil
  then show ?case by simp
next
  case (Cons b bs)
  show ?case
  proof (cases "b_category_id b = cid \<and> b_year b = y \<and> b_month b = m")
    case True
    with Cons.prems show ?thesis by (auto simp: budget_key_def)
  next
    case False
    with Cons.prems obtain cs where "update_existing cid y m amt bs = Some cs" "bs' = b # cs"
      by auto
    with Cons.IH [of cs] show ?thesis by simp
  qed
qed

lemma update_existing_others:
  "update_existing cid y m amt bs = Some bs' \<Longrightarrow>
   filter (\<lambda>b. budget_key b \<noteq> (cid, y, m)) bs' = filter (\<lambda>b. budget_key b \<noteq> (cid, y, m)) bs"
proof (induction bs arbitrary: bs')
  case Nil
  then show ?case by simp
next
  case (Cons b bs)
  show ?case
  proof (cases "b_category_id b = cid \<and> b_year b = y \<and> b_month b = m")
    case True
    with Cons.prems show ?thesis by (auto simp: budget_key_def)
  next
    case False
    with Cons.prems obtain cs where "update_existing cid y m amt bs = Some cs" "bs' = b # cs"
      by auto
    with Cons.IH [of cs] False show ?thesis by (simp add: budget_key_def)
  qed
qed

lemma update_existing_entry:
  "update_existing cid y m amt bs = Some bs' \<Longrightarrow> unique_budget_keys bs \<Longrightarrow>
   filter (\<lambda>b. budget_key b = (cid, y, m)) bs' =
     [\<lparr>b_category_id = cid, b_year = y, b_month = m, b_amount = amt\<rparr>]"
proof (induction bs arbitrary: bs')
  case Nil
  then show ?case by simp
next
  case (Cons b bs)
  from Cons.prems(2) have u: "unique_budget_keys bs" and nb: "budget_key b \<notin> set (map budget_key bs)"
    by (simp_all add: unique_budget_keys_def)
  show ?case
  proof (cases "b_category_id b = cid \<and> b_year b = y \<and> b_month b = m")
    case True
    then have kb: "budget_key b = (cid, y, m)" by (simp add: budget_key_def)
    with nb have "filter (\<lambda>b. budget_key b = (cid, y, m)) bs = []"
      by (simp add: filter_key_absent)
    moreover from True have "b\<lparr>b_amount := amt\<rparr> =
        \<lparr>b_category_id = cid, b_year = y, b_month = m, b_amount = amt\<rparr>"
      by (cases b) simp
    ultimately show ?thesis using Cons.prems(1) True by (auto simp: budget_key_def)
  next
    case False
    with Cons.prems obtain cs where "update_existing cid y m amt bs = Some cs" "bs' = b # cs"
      by auto
    with Cons.IH [of cs] u False show ?thesis by (simp add: budget_key_def)
  qed
qed

lemma set_budget_valid:
  assumes inp: "budget_inputs inp = (cid, y, m, amt)"
    and ok: "find_category_by_id st cid" "1 \<le> m" "m \<le> 12" "0 \<le> amt"
  shows "fst (set_budget st inp) =
           (if (cid, y, m) \<in> set (map budget_key (budgets st)) then Updated_budget else Budget_set)"
    and "fst (snd (set_budget st inp)) = st\<lparr>budgets := upsert cid y m amt (budgets st)\<rparr>"
proof -
  obtain r1 where a: "read_int inp = (cid, r1)"
    using inp by (auto simp: budget_inputs_def split: prod.splits)
  obtain r2 where b: "read_int r1 = (y, r2)"
    using inp a by (auto simp: budget_inputs_def split: prod.splits)
  obtain r3 where c: "read_int r2 = (m, r3)"
    using inp a b by (auto simp: budget_inputs_def split: prod.splits)
  obtain r4 where d: "read_double r3 = (amt, r4)"
    using inp a b c by (auto simp: budget_inputs_def split: prod.splits)
  show "fst (set_budget st inp) =
           (if (cid, y, m) \<in> set (map budget_key (budgets st)) then Updated_budget else Budget_set)"
    using ok update_existing_None [of cid y m amt "budgets st"]
    by (auto simp: set_budget_def a b c d split: option.splits)
  show "fst (snd (set_budget st inp)) = st\<lparr>budgets := upsert cid y m amt (budgets st)\<rparr>"
    using ok by (auto simp: set_budget_def upsert_def a b c d split: option.splits)
qed

lemma upsert_properties:
  assumes u: "unique_budget_keys bs"
  shows "unique_budget_keys (upsert cid y m amt bs) \<and>
         filter (\<lambda>b. budget_key b = (cid, y, m)) (upsert cid y m amt bs) =
           [\<lparr>b_category_id = cid, b_year = y, b_month = m, b_amount = amt\<rparr>] \<and>
         filter (\<lambda>b. budget_key b \<noteq> (cid, y, m)) (upsert cid y m amt bs) =
           filter (\<lambda>b. budget_key b \<noteq> (cid, y, m)) bs \<and>
         (cid, y, m) \<in> set (map budget_key (upsert cid y m amt bs)) \<and>
         ((cid, y, m) \<in> set (map budget_key bs) \<longrightarrow>
            map budget_key (upsert cid y m amt bs) = map budget_key bs)"
proof (cases "update_existing cid y m amt bs")
  case None
  then have nk: "(cid, y, m) \<notin> set (map budget_key bs)" by (simp add: update_existing_None)
  then have "filter (\<lambda>b. budget_key b = (cid, y, m)) bs = []"
    by (rule filter_key_absent)
  moreover from nk have "filter (\<lambda>b. budget_key b \<noteq> (cid, y, m)) bs = bs"
    by (rule filter_other_absent)
  moreover have "budget_key \<lparr>b_category_id = cid, b_year = y, b_month = m, b_amount = amt\<rparr> =
      (cid, y, m)" by (simp add: budget_key_def)
  ultimately show ?thesis
    using u nk None by (simp add: upsert_def unique_budget_keys_def)
next
  case (Some cs)
  have k: "map budget_key cs = map budget_key bs" using Some by (rule update_existing_keys)
  have "(cid, y, m) \<in> set (map budget_key bs)"
    using Some update_existing_None [of cid y m amt bs] by auto
  with k have "(cid, y, m) \<in> set (map budget_key cs)" by simp
  then show ?thesis
    using u Some k update_existing_others [OF Some] update_existing_entry [OF Some u]
    by (simp add: upsert_def unique_budget_keys_def)
qed

lemma set_budget_budgets:
  "budgets (fst (snd (set_budget st inp))) = budgets st \<or>
   (\<exists>cid y m amt. budgets (fst (snd (set_budget st inp))) = upsert cid y m amt (budgets st))"
proof -
  obtain cid r1 where a: "read_int inp = (cid, r1)" by (cases "read_int inp")
  obtain y r2 where b: "read_int r1 = (y, r2)" by (cases "read_int r1")
  obtain m r3 where c: "read_int r2 = (m, r3)" by (cases "read_int r2")
  obtain amt r4 where d: "read_double r3 = (amt, r4)" by (cases "read_double r3")
  have "budgets (fst (snd (set_budget st inp))) = budgets st \<or>
        budgets (fst (snd (set_budget st inp))) = upsert cid y m amt (budgets st)"
    by (auto simp: set_budget_def upsert_def a b c d split: option.splits)
  then show ?thesis by blast
qed

lemma set_budget_preserves_unique_keys:
  assumes "unique_budget_keys (budgets st)"
  shows "unique_budget_keys (budgets (fst (snd (set_budget st inp))))"
  using set_budget_budgets [of st inp] upsert_properties [OF assms] assms by auto

text \<open>
  Claim C7: the budget store keeps at most one entry per (category, year, month). A set
  for a triple that has an entry overwrites its amount in place and appends nothing, so
  two sets with the same triple and different amounts leave exactly one entry for the
  triple, holding the later amount, and every other entry unchanged.
\<close>

theorem set_budget_one_entry_per_key:
  assumes uniq: "unique_budget_keys (budgets st)"
    and cat: "find_category_by_id st cid" and month: "1 \<le> m" "m \<le> 12"
    and amounts: "0 \<le> a1" "0 \<le> a2"
    and first: "budget_inputs inp1 = (cid, y, m, a1)"
    and second: "budget_inputs inp2 = (cid, y, m, a2)"
    and run1: "set_budget st inp1 = (msg1, st1, rest1)"
    and run2: "set_budget st1 inp2 = (msg2, st2, rest2)"
  shows "(\<forall>inp. unique_budget_keys (budgets (fst (snd (set_budget st inp))))) \<and>
         unique_budget_keys (budgets st1) \<and> unique_budget_keys (budgets st2) \<and>
         msg2 = Updated_budget \<and>
         map budget_key (budgets st2) = map budget_key (budgets st1) \<and>
         filter (\<lambda>b. budget_key b = (cid, y, m)) (budgets st2) =
           [\<lparr>b_category_id = cid, b_year = y, b_month = m, b_amount = a2\<rparr>] \<and>
         filter (\<lambda>b. budget_key b \<noteq> (cid, y, m)) (budgets st2) =
           filter (\<lambda>b. budget_key b \<noteq> (cid, y, m)) (budgets st)"
proof -
  have s1: "st1 = st\<lparr>budgets := upsert cid y m a1 (budgets st)\<rparr>"
    using set_budget_valid(2) [OF first cat month amounts(1)] run1 by simp
  then have b1: "budgets st1 = upsert cid y m a1 (budgets st)" by simp
  from s1 cat have cat1: "find_category_by_id st1 cid" by (simp add: find_category_by_id_def)
  have s2: "st2 = st1\<lparr>budgets := upsert cid y m a2 (budgets st1)\<rparr>"
    using set_budget_valid(2) [OF second cat1 month amounts(2)] run2 by simp
  then have b2: "budgets st2 = upsert cid y m a2 (upsert cid y m a1 (budgets st))"
    by (simp add: b1)
  note p1 = upsert_properties [OF uniq, of cid y m a1]
  from p1 have u1: "unique_budget_keys (upsert cid y m a1 (budgets st))" by simp
  note p2 = upsert_properties [OF u1, of cid y m a2]
  have m2: "msg2 = Updated_budget"
    using set_budget_valid(1) [OF second cat1 month amounts(2)] p1 run2 by (simp add: b1)
  have inv: "\<forall>inp. unique_budget_keys (budgets (fst (snd (set_budget st inp))))"
    using uniq by (simp add: set_budget_preserves_unique_keys)
  show ?thesis
    using inv p1 p2 m2 by (simp add: b1 b2)
qed

theorem set_budget_one_entry_per_key_witness:
  "budget_inputs (lines [''1'', ''2024'', ''3'', ''100'']) = (1, 2024, 3, 100) \<and>
   budget_inputs (lines [''1'', ''2024'', ''3'', ''250.5'']) = (1, 2024, 3, 250.5) \<and>
   set_budget food_store (lines [''1'', ''2024'', ''3'', ''100'']) =
     (Budget_set, food_store\<lparr>budgets := [march_budget]\<rparr>, []) \<and>
   set_budget (food_store\<lparr>budgets := [march_budget]\<rparr>) (lines [''1'', ''2024'', ''3'', ''250.5'']) =
     (Updated_budget, food_store\<lparr>budgets := [march_budget\<lparr>b_amount := 250.5\<rparr>]\<rparr>, []) \<and>
   filter (\<lambda>b. budget_key b = (1, 2024, 3))
     (budgets (food_store\<lparr>budgets := [march_budget\<lparr>b_amount := 250.5\<rparr>]\<rparr>)) =
     [\<lparr>b_category_id = 1, b_year = 2024, b_month = 3, b_amount = 250.5\<rparr>]"
proof -
  have i1: "budget_inputs (lines [''1'', ''2024'', ''3'', ''100'']) = (1, 2024, 3, 100)"
    by (simp add: budget_inputs_def input_simps scan_simps)
  have i2: "budget_inputs (lines [''1'', ''2024'', ''3'', ''250.5'']) = (1, 2024, 3, 250.5)"
    by (simp add: budget_inputs_def input_simps scan_simps)
  have u: "unique_budget_keys (budgets food_store)"
    by (simp add: unique_budget_keys_def food_store_def initial_stores_def)
  have c: "find_category_by_id food_store 1"
    by (simp add: find_category_by_id_def food_store_def food_def)
  have run1: "set_budget food_store (lines [''1'', ''2024'', ''3'', ''100'']) =
     (Budget_set, food_store\<lparr>budgets := [march_budget]\<rparr>, [])"
    by (simp add: set_budget_def input_simps scan_simps find_category_by_id_def food_store_def
        initial_stores_def food_def march_budget_def)
  have run2: "set_budget (food_store\<lparr>budgets := [march_budget]\<rparr>)
       (lines [''1'', ''2024'', ''3'', ''250.5'']) =
     (Updated_budget, food_store\<lparr>budgets := [march_budget\<lparr>b_amount := 250.5\<rparr>]\<rparr>, [])"
    by (simp add: set_budget_def input_simps scan_simps find_category_by_id_def food_store_def
        initial_stores_def food_def march_budget_def)
  have k: "filter (\<lambda>b. budget_key b = (1, 2024, 3))
     (budgets (food_store\<lparr>budgets := [march_budget\<lparr>b_amount := 250.5\<rparr>]\<rparr>)) =
     [\<lparr>b_category_id = 1, b_year = 2024, b_month = 3, b_amount = 250.5\<rparr>]"
    using set_budget_one_entry_per_key [OF u c _ _ _ _ i1 i2 run1 run2]
    by (simp add: march_budget_def budget_key_def)
  from i1 i2 run1 run2 k show ?thesis by (simp only: simp_thms)
qed

end
